theory Spec2Isabelle
  imports Main "HOL-Library.Char_ord" "HOL-Library.List_Lexorder" "HOL-Library.Sublist"
begin

section \<open>The local-first synchronisation engine (lib/sync.ts)\<close>

text \<open>
  The module keeps two JSON arrays of scans (History and Outbox), a pull watermark and a
  one-shot cleanup flag in AsyncStorage, pushes the Outbox to the remote table
  \<^verbatim>\<open>scans\<close> and pulls the remote rows back into History.

  Every \<^verbatim>\<open>await\<close> of the module talks to a collaborator outside of it
  (AsyncStorage, the Supabase client). The model runs one invocation against an
  environment that fixes, for each such call, whether its promise rejects and what it
  answers. Storage is explicit state; a rejected promise is an exception value. All
  theorems quantify over the environment.
\<close>

subsection \<open>Data model\<close>

text \<open>
  \<^verbatim>\<open>LocalScan\<close>. An optional field that is \<^verbatim>\<open>undefined\<close> or
  \<^verbatim>\<open>null\<close> is \<open>None\<close>. \<open>meta\<close> is an opaque JSON object, kept as its text.
  \<open>codeType\<close> is a string at run time (a pulled row's \<^verbatim>\<open>type\<close> is cast, not checked).
\<close>

record LocalScan =
  localId :: string
  serverId :: "string option"
  userId :: "string option"
  tenantId :: "string option"
  createdAt :: string
  codeType :: string
  payload :: string
  clientRef :: string
  meta :: "string option"
  synced :: bool

text \<open>The row that \<^verbatim>\<open>pushOutbox\<close> inserts into \<^verbatim>\<open>scans\<close>.\<close>

record InsertRow =
  ins_user_id :: string
  ins_tenant_id :: "string option"
  ins_created_at :: string
  ins_type :: string
  ins_value :: string
  ins_client_ref :: string
  ins_meta :: "string option"

text \<open>
  A row that \<^verbatim>\<open>pullServer\<close> selects from \<^verbatim>\<open>scans\<close>. \<open>row_id\<close> is
  \<^verbatim>\<open>String(row.id)\<close>.
\<close>

record ServerRow =
  row_id :: string
  row_user_id :: "string option"
  row_tenant_id :: "string option"
  row_created_at :: string
  row_type :: "string option"
  row_value :: string
  row_meta :: "string option"

text \<open>The \<^verbatim>\<open>error\<close> object of a Supabase reply.\<close>

record PgError =
  code :: "string option"
  message :: "string option"

text \<open>The reply \<^verbatim>\<open>{ data, error }\<close> of the membership lookup; \<open>m_data\<close> is the
  selected row, holding its \<^verbatim>\<open>tenant_id\<close>.\<close>

record MembershipReply =
  m_data :: "string option option"
  m_error :: "PgError option"

text \<open>The reply \<^verbatim>\<open>{ data, error }\<close> of the select on \<^verbatim>\<open>scans\<close>.\<close>

record SelectReply =
  s_data :: "ServerRow list option"
  s_error :: "PgError option"

text \<open>
  A value held by AsyncStorage is a string. \<open>Scans xs\<close> is the JSON text of the array
  \<open>xs\<close> (what \<^verbatim>\<open>JSON.stringify\<close> writes and \<^verbatim>\<open>JSON.parse\<close> reads back);
  \<open>Str s\<close> is any other string \<open>s\<close>, which under the keys of the two arrays is empty or
  text that \<^verbatim>\<open>JSON.parse\<close> rejects.
\<close>

datatype sval = Str string | Scans "LocalScan list"

subsection \<open>The awaited calls and the environment\<close>

text \<open>
  One constructor for each \<^verbatim>\<open>await\<close> of the module. The calls inside the loop of
  \<^verbatim>\<open>pushOutbox\<close> carry the position of the item in iteration order.
\<close>

datatype site =
    PurgeGetFlag | PurgeRemove | PurgeSetFlag
  | PushSession | PushReadOutbox
  | PushTenant nat | PushInsert nat | PushReadHistory nat | PushWriteHistory nat
  | PushWriteOutbox
  | PullSession | PullReadSince | PullQuery | PullReadHistory | PullWriteHistory
  | PullSetSince

datatype exn = Rejected site

record env =
  throws :: "site \<Rightarrow> bool"
  session :: "site \<Rightarrow> string option"
  membership :: "nat \<Rightarrow> string \<Rightarrow> MembershipReply"
  insert_reply :: "nat \<Rightarrow> InsertRow \<Rightarrow> PgError option"
  select_reply :: "sval \<Rightarrow> SelectReply"
  now :: string

text \<open>
  \<open>throws e s\<close>: the promise awaited at \<open>s\<close> rejects. \<open>session e s\<close>: the user id of the
  session that \<^verbatim>\<open>getSession\<close> returns at \<open>s\<close>, if any. \<open>membership e i uid\<close> and
  \<open>insert_reply e i row\<close>: the replies to the lookup and to the insert made for the item at
  position \<open>i\<close>. \<open>select_reply e since\<close>: the reply to the select with lower bound
  \<open>since\<close>. \<open>now e\<close>: what \<^verbatim>\<open>nowIso()\<close> reads at the end of a pull.

  The state is the content of AsyncStorage together with the log of the calls attempted.
  A call that rejects is logged and changes nothing in the storage.
\<close>

record world =
  kv :: "string \<rightharpoonup> sval"
  calls :: "site list"

type_synonym 'a io = "world \<Rightarrow> (exn + 'a) \<times> world"

definition ret :: "'a \<Rightarrow> 'a io" where
  "ret x = (\<lambda>w. (Inr x, w))"

definition bind_io :: "'a io \<Rightarrow> ('a \<Rightarrow> 'b io) \<Rightarrow> 'b io" where
  "bind_io m f = (\<lambda>w. case m w of (Inl x, w') \<Rightarrow> (Inl x, w') | (Inr a, w') \<Rightarrow> f a w')"

text \<open>\<^verbatim>\<open>try { m } catch (x) { h x }\<close>: the handler runs in the state where \<open>m\<close> stopped.\<close>

definition try_catch :: "'a io \<Rightarrow> (exn \<Rightarrow> 'a io) \<Rightarrow> 'a io" where
  "try_catch m h = (\<lambda>w. case m w of (Inl x, w') \<Rightarrow> h x w' | (Inr a, w') \<Rightarrow> (Inr a, w'))"

definition await :: "env \<Rightarrow> site \<Rightarrow> unit io" where
  "await e s = (\<lambda>w. (if throws e s then Inl (Rejected s) else Inr (),
                     w\<lparr>calls := calls w @ [s]\<rparr>))"

subsection \<open>Keys and storage helpers\<close>

definition K_HISTORY :: string where "K_HISTORY = ''history:v1''"
definition K_OUTBOX :: string where "K_OUTBOX = ''outbox:v1''"
definition K_LASTPULLED_AT :: string where "K_LASTPULLED_AT = ''lastPulledAt:v1''"
definition K_LEGACY_CLEANED :: string where "K_LEGACY_CLEANED = ''SYNC_CLEANED_v1''"

definition LEGACY_KEYS :: "string list" where
  "LEGACY_KEYS = [''PENDING_QUEUE'', ''SYNC_LOCK'', ''SYNC_IN_PROGRESS'', ''SYNC_QUARANTINE_LAST'']"

definition getItem :: "env \<Rightarrow> site \<Rightarrow> string \<Rightarrow> sval option io" where
  "getItem e s k = bind_io (await e s) (\<lambda>_ w. (Inr (kv w k), w))"

definition setItem :: "env \<Rightarrow> site \<Rightarrow> string \<Rightarrow> sval \<Rightarrow> unit io" where
  "setItem e s k v = bind_io (await e s) (\<lambda>_ w. (Inr (), w\<lparr>kv := (kv w)(k \<mapsto> v)\<rparr>))"

definition multiRemove :: "env \<Rightarrow> site \<Rightarrow> string list \<Rightarrow> unit io" where
  "multiRemove e s ks =
     bind_io (await e s)
       (\<lambda>_ w. (Inr (), w\<lparr>kv := kv w |` (- set ks)\<rparr>))"

text \<open>\<^verbatim>\<open>if (done)\<close>: a stored string is truthy when it is not empty.\<close>

fun truthy :: "sval option \<Rightarrow> bool" where
  "truthy None = False"
| "truthy (Some (Str s)) = (s \<noteq> [])"
| "truthy (Some (Scans xs)) = True"

fun parse_or :: "LocalScan list \<Rightarrow> sval option \<Rightarrow> LocalScan list" where
  "parse_or fallback None = fallback"
| "parse_or fallback (Some (Str s)) = fallback"
| "parse_or fallback (Some (Scans xs)) = xs"

definition readJson :: "env \<Rightarrow> site \<Rightarrow> string \<Rightarrow> LocalScan list \<Rightarrow> LocalScan list io" where
  "readJson e s k fallback = bind_io (getItem e s k) (\<lambda>raw. ret (parse_or fallback raw))"

definition writeJson :: "env \<Rightarrow> site \<Rightarrow> string \<Rightarrow> LocalScan list \<Rightarrow> unit io" where
  "writeJson e s k v = setItem e s k (Scans v)"

subsection \<open>One-shot cleanup of legacy keys\<close>

definition purgeLegacyArtifactsOnce :: "env \<Rightarrow> unit io" where
  "purgeLegacyArtifactsOnce e =
     bind_io (getItem e PurgeGetFlag K_LEGACY_CLEANED) (\<lambda>done.
       if truthy done then ret ()
       else bind_io (multiRemove e PurgeRemove LEGACY_KEYS) (\<lambda>_.
              setItem e PurgeSetFlag K_LEGACY_CLEANED (Str ''1'')))"

subsection \<open>PUSH: Outbox to server\<close>

text \<open>
  \<^verbatim>\<open>ensureTenantId\<close>: the first membership of the user, \<^verbatim>\<open>null\<close> on an error
  reply or when there is none.
\<close>

definition ensureTenantId :: "env \<Rightarrow> nat \<Rightarrow> string \<Rightarrow> string option io" where
  "ensureTenantId e i uid =
     bind_io (await e (PushTenant i)) (\<lambda>_.
       let r = membership e i uid in
       if m_error r \<noteq> None then ret None
       else ret (case m_data r of None \<Rightarrow> None | Some t \<Rightarrow> t))"

text \<open>
  \<^verbatim>\<open>/duplicate key/i.test(msg)\<close>: the pattern occurs somewhere in the message, letters
  compared without case.
\<close>

definition lower :: "char \<Rightarrow> char" where
  "lower c = (if CHR ''A'' \<le> c \<and> c \<le> CHR ''Z'' then char_of (of_char c + (32::nat)) else c)"

fun starts_ci :: "string \<Rightarrow> string \<Rightarrow> bool" where
  "starts_ci [] ys = True"
| "starts_ci (p # ps) [] = False"
| "starts_ci (p # ps) (y # ys) = (lower p = lower y \<and> starts_ci ps ys)"

fun test_ci :: "string \<Rightarrow> string \<Rightarrow> bool" where
  "test_ci p [] = starts_ci p []"
| "test_ci p (y # ys) = (starts_ci p (y # ys) \<or> test_ci p ys)"

text \<open>The unique violation that the insert treats as already applied.\<close>

definition duplicate_key :: "PgError \<Rightarrow> bool" where
  "duplicate_key err =
     (code err = Some ''23505'' \<or>
      test_ci ''duplicate key'' (case message err of None \<Rightarrow> [] | Some m \<Rightarrow> m))"

text \<open>The branch \<^verbatim>\<open>failures.push(item); continue\<close>: an error that is no duplicate.\<close>

fun rejected :: "PgError option \<Rightarrow> bool" where
  "rejected None = False"
| "rejected (Some err) = (\<not> duplicate_key err)"

text \<open>\<^verbatim>\<open>Array.prototype.findIndex\<close>, with \<open>None\<close> for \<^verbatim>\<open>-1\<close>.\<close>

fun findIndex :: "('a \<Rightarrow> bool) \<Rightarrow> 'a list \<Rightarrow> nat option" where
  "findIndex P [] = None"
| "findIndex P (x # xs) = (if P x then Some 0 else map_option Suc (findIndex P xs))"

text \<open>Marking the History entry of a confirmed item.\<close>

definition mark_synced :: "env \<Rightarrow> string \<Rightarrow> nat \<Rightarrow> LocalScan \<Rightarrow> unit io" where
  "mark_synced e uid i item =
     bind_io (readJson e (PushReadHistory i) K_HISTORY []) (\<lambda>hist.
       case findIndex (\<lambda>h. localId h = localId item) hist of
         None \<Rightarrow> ret ()
       | Some idx \<Rightarrow>
           writeJson e (PushWriteHistory i) K_HISTORY
             (hist[idx := (hist ! idx)\<lparr>synced := True, userId := Some uid\<rparr>]))"

definition make_row :: "string \<Rightarrow> string option \<Rightarrow> LocalScan \<Rightarrow> InsertRow" where
  "make_row uid tenant item =
     \<lparr>ins_user_id = uid, ins_tenant_id = tenant, ins_created_at = createdAt item,
      ins_type = codeType item, ins_value = payload item, ins_client_ref = clientRef item,
      ins_meta = meta item\<rparr>"

text \<open>
  The body of the \<^verbatim>\<open>try\<close> for one item: \<open>True\<close> when the item is counted as pushed,
  \<open>False\<close> when it is put on \<^verbatim>\<open>failures\<close> by the error branch.
\<close>

definition push_item :: "env \<Rightarrow> string \<Rightarrow> nat \<Rightarrow> LocalScan \<Rightarrow> bool io" where
  "push_item e uid i item =
     bind_io (case tenantId item of Some t \<Rightarrow> ret (Some t) | None \<Rightarrow> ensureTenantId e i uid)
       (\<lambda>tenant.
          bind_io (await e (PushInsert i)) (\<lambda>_.
            if rejected (insert_reply e i (make_row uid tenant item)) then ret False
            else bind_io (mark_synced e uid i item) (\<lambda>_. ret True)))"

text \<open>The loop over the Outbox; the \<^verbatim>\<open>catch\<close> puts the item on \<^verbatim>\<open>failures\<close>.\<close>

fun push_items ::
  "env \<Rightarrow> string \<Rightarrow> nat \<Rightarrow> LocalScan list \<Rightarrow> nat \<Rightarrow> LocalScan list \<Rightarrow> (nat \<times> LocalScan list) io"
where
  "push_items e uid i [] pushed failures w = (Inr (pushed, failures), w)"
| "push_items e uid i (item # rest) pushed failures w =
     (case push_item e uid i item w of
        (Inr True, w') \<Rightarrow> push_items e uid (Suc i) rest (Suc pushed) failures w'
      | (Inr False, w') \<Rightarrow> push_items e uid (Suc i) rest pushed (failures @ [item]) w'
      | (Inl x, w') \<Rightarrow> push_items e uid (Suc i) rest pushed (failures @ [item]) w')"

text \<open>The result object; a key that the object does not have is \<open>None\<close>.\<close>

record push_result =
  pushed :: nat
  failed :: "nat option"
  push_reason :: "string option"

definition pushOutbox :: "env \<Rightarrow> push_result io" where
  "pushOutbox e =
     bind_io (await e PushSession) (\<lambda>_.
       case session e PushSession of
         None \<Rightarrow> ret \<lparr>pushed = 0, failed = None, push_reason = Some ''no-session''\<rparr>
       | Some uid \<Rightarrow>
           bind_io (readJson e PushReadOutbox K_OUTBOX []) (\<lambda>stored.
             let outbox = rev stored in
             if outbox = [] then ret \<lparr>pushed = 0, failed = None, push_reason = None\<rparr>
             else
               bind_io (push_items e uid 0 outbox 0 []) (\<lambda>(n, failures).
                 bind_io (writeJson e PushWriteOutbox K_OUTBOX (rev failures)) (\<lambda>_.
                   ret \<lparr>pushed = n, failed = Some (length failures), push_reason = None\<rparr>))))"

subsection \<open>PULL: server to local merge\<close>

definition epoch :: string where
  "epoch = ''1970-01-01T00:00:00.000Z''"

text \<open>\<^verbatim>\<open>history.filter(h => h.serverId).map(h => h.serverId)\<close>: the non-empty ids.\<close>

definition server_ids :: "LocalScan list \<Rightarrow> string list" where
  "server_ids history =
     map (\<lambda>h. case serverId h of None \<Rightarrow> [] | Some s \<Rightarrow> s)
       (filter (\<lambda>h. case serverId h of None \<Rightarrow> False | Some s \<Rightarrow> s \<noteq> []) history)"

definition from_row :: "ServerRow \<Rightarrow> LocalScan" where
  "from_row row =
     \<lparr>localId = ''srv-'' @ row_id row, serverId = Some (row_id row),
      userId = row_user_id row, tenantId = row_tenant_id row,
      createdAt = row_created_at row,
      codeType = (case row_type row of None \<Rightarrow> ''barcode'' | Some t \<Rightarrow> t),
      payload = row_value row, clientRef = ''srv-'' @ row_id row,
      meta = row_meta row, synced = True\<rparr>"

text \<open>The merge loop: the set of known ids is computed once, before the loop.\<close>

fun merge_rows ::
  "string list \<Rightarrow> ServerRow list \<Rightarrow> LocalScan list \<Rightarrow> nat \<Rightarrow> LocalScan list \<times> nat"
where
  "merge_rows byServerId [] history added = (history, added)"
| "merge_rows byServerId (row # rows) history added =
     (if row_id row \<in> set byServerId then merge_rows byServerId rows history added
      else merge_rows byServerId rows (history @ [from_row row]) (Suc added))"

text \<open>
  \<^verbatim>\<open>history.sort((a, b) => (a.createdAt < b.createdAt ? 1 : -1))\<close>. The comparator
  never answers 0, so the order in which the engine leaves entries of equal
  \<open>createdAt\<close> is its own; the model inserts from the right, and the theorems below use
  only that the result holds the same entries.
\<close>

definition compareFn :: "LocalScan \<Rightarrow> LocalScan \<Rightarrow> int" where
  "compareFn a b = (if createdAt a < createdAt b then 1 else - 1)"

fun insort_desc :: "LocalScan \<Rightarrow> LocalScan list \<Rightarrow> LocalScan list" where
  "insort_desc x [] = [x]"
| "insort_desc x (y # ys) = (if compareFn x y < 0 then x # y # ys else y # insort_desc x ys)"

definition sort_history :: "LocalScan list \<Rightarrow> LocalScan list" where
  "sort_history xs = foldr insort_desc xs []"

record pull_result =
  pulled :: nat
  pull_reason :: "string option"

definition pullServer :: "env \<Rightarrow> pull_result io" where
  "pullServer e =
     bind_io (await e PullSession) (\<lambda>_.
       case session e PullSession of
         None \<Rightarrow> ret \<lparr>pulled = 0, pull_reason = Some ''no-session''\<rparr>
       | Some _ \<Rightarrow>
           bind_io (getItem e PullReadSince K_LASTPULLED_AT) (\<lambda>raw.
             let since = (case raw of None \<Rightarrow> Str epoch | Some v \<Rightarrow> v) in
             bind_io (await e PullQuery) (\<lambda>_.
               let reply = select_reply e since in
               if s_error reply \<noteq> None then ret \<lparr>pulled = 0, pull_reason = Some ''pull-error''\<rparr>
               else
                 bind_io (readJson e PullReadHistory K_HISTORY []) (\<lambda>history.
                   let (merged, added) =
                         merge_rows (server_ids history)
                           (case s_data reply of None \<Rightarrow> [] | Some rows \<Rightarrow> rows) history 0 in
                   bind_io (writeJson e PullWriteHistory K_HISTORY (sort_history merged)) (\<lambda>_.
                     bind_io (setItem e PullSetSince K_LASTPULLED_AT (Str (now e))) (\<lambda>_.
                       ret \<lparr>pulled = added, pull_reason = None\<rparr>))))))"

subsection \<open>The whole synchronisation\<close>

text \<open>The result object; \<open>error\<close> is \<open>False\<close> when the object has no such key.\<close>

record sync_result =
  push :: push_result
  pull :: pull_result
  error :: bool

text \<open>
  The cleanup is awaited before the \<^verbatim>\<open>try\<close>; push and pull are inside it, and the
  \<^verbatim>\<open>catch\<close> answers the fixed error result.
\<close>

definition syncAll :: "env \<Rightarrow> sync_result io" where
  "syncAll e =
     bind_io (purgeLegacyArtifactsOnce e) (\<lambda>_.
       try_catch
         (bind_io (pushOutbox e) (\<lambda>p.
            bind_io (pullServer e) (\<lambda>q. ret \<lparr>push = p, pull = q, error = False\<rparr>)))
         (\<lambda>x. ret \<lparr>push = \<lparr>pushed = 0, failed = None, push_reason = None\<rparr>,
                   pull = \<lparr>pulled = 0, pull_reason = None\<rparr>, error = True\<rparr>))"

section \<open>Observations used by the properties\<close>

text \<open>
  What \<^verbatim>\<open>readJson\<close> reads under the two array keys, the lower bound that the next pull
  sends, the rows of a reply (\<^verbatim>\<open>data ?? []\<close>), and a state with further calls logged.
\<close>

definition history_of :: "world \<Rightarrow> LocalScan list" where
  "history_of w = parse_or [] (kv w K_HISTORY)"

definition outbox_of :: "world \<Rightarrow> LocalScan list" where
  "outbox_of w = parse_or [] (kv w K_OUTBOX)"

definition since_of :: "world \<Rightarrow> sval" where
  "since_of w = (case kv w K_LASTPULLED_AT of None \<Rightarrow> Str epoch | Some v \<Rightarrow> v)"

definition rows_of :: "SelectReply \<Rightarrow> ServerRow list" where
  "rows_of reply = (case s_data reply of None \<Rightarrow> [] | Some rows \<Rightarrow> rows)"

definition logged :: "site list \<Rightarrow> world \<Rightarrow> world" where
  "logged ss w = w\<lparr>calls := calls w @ ss\<rparr>"

text \<open>The two assignments of \<^verbatim>\<open>pushOutbox\<close> to a History entry.\<close>

definition mark :: "string \<Rightarrow> LocalScan \<Rightarrow> LocalScan" where
  "mark uid h = h\<lparr>synced := True, userId := Some uid\<rparr>"

text \<open>
  The row sent for the item at position \<open>i\<close> when no call rejects, and whether its insert
  is confirmed (accepted, or answered with the unique violation).
\<close>

definition sent_row :: "env \<Rightarrow> string \<Rightarrow> nat \<Rightarrow> LocalScan \<Rightarrow> InsertRow" where
  "sent_row e uid i item =
     make_row uid
       (case tenantId item of
          Some t \<Rightarrow> Some t
        | None \<Rightarrow>
            (let r = membership e i uid in
             if m_error r \<noteq> None then None else (case m_data r of None \<Rightarrow> None | Some t \<Rightarrow> t)))
       item"

definition confirmed :: "env \<Rightarrow> string \<Rightarrow> nat \<Rightarrow> LocalScan \<Rightarrow> bool" where
  "confirmed e uid i item = (\<not> rejected (insert_reply e i (sent_row e uid i item)))"

definition confirmed_ids :: "env \<Rightarrow> string \<Rightarrow> nat \<Rightarrow> LocalScan list \<Rightarrow> string list" where
  "confirmed_ids e uid i items =
     map (\<lambda>(j, item). localId item) (filter (\<lambda>(j, item). confirmed e uid j item) (enumerate i items))"

text \<open>
  \<open>marks_only C uid h h'\<close>: \<open>h'\<close> is \<open>h\<close>, entry by entry, but for entries whose
  \<open>localId\<close> is in \<open>C\<close>, which may have been marked.
\<close>

definition marks_only :: "string set \<Rightarrow> string \<Rightarrow> LocalScan list \<Rightarrow> LocalScan list \<Rightarrow> bool" where
  "marks_only C uid h h' = list_all2 (\<lambda>a b. b = a \<or> (localId a \<in> C \<and> b = mark uid a)) h h'"

text \<open>
  The same relation on what is stored under the History key: a value that is no array is
  left as it is.
\<close>

definition stored_marks_only :: "string set \<Rightarrow> string \<Rightarrow> sval option \<Rightarrow> sval option \<Rightarrow> bool" where
  "stored_marks_only C uid v v' =
     (case (v, v') of
        (Some (Scans h), Some (Scans h')) \<Rightarrow> marks_only C uid h h'
      | _ \<Rightarrow> v' = v)"

text \<open>Sequences of invocations, each against its own environment.\<close>

datatype op = Purge env | Push env | Pull env | Sync env

fun apply_op :: "op \<Rightarrow> world \<Rightarrow> world" where
  "apply_op (Purge e) w = snd (purgeLegacyArtifactsOnce e w)"
| "apply_op (Push e) w = snd (pushOutbox e w)"
| "apply_op (Pull e) w = snd (pullServer e w)"
| "apply_op (Sync e) w = snd (syncAll e w)"

definition run :: "op list \<Rightarrow> world \<Rightarrow> world" where
  "run ops w = fold apply_op ops w"

text \<open>The result that the \<^verbatim>\<open>catch\<close> of \<^verbatim>\<open>syncAll\<close> answers.\<close>

definition error_result :: sync_result where
  "error_result =
     \<lparr>push = \<lparr>pushed = 0, failed = None, push_reason = None\<rparr>,
      pull = \<lparr>pulled = 0, pull_reason = None\<rparr>, error = True\<rparr>"

text \<open>
  The stored watermark as \<^verbatim>\<open>pullServer\<close> reads it (the epoch when the key is absent).
  It is a plain string unless the key holds the text of an array, which nothing writes.
\<close>

definition plain_watermark :: "world \<Rightarrow> bool" where
  "plain_watermark w = (case kv w K_LASTPULLED_AT of Some (Scans xs) \<Rightarrow> False | _ \<Rightarrow> True)"

definition watermark :: "world \<Rightarrow> string" where
  "watermark w = (case since_of w of Str s \<Rightarrow> s | Scans xs \<Rightarrow> [])"

text \<open>The states before and after each call of a sequence of pulls.\<close>

fun pull_trace :: "env list \<Rightarrow> world \<Rightarrow> world list" where
  "pull_trace [] w = [w]"
| "pull_trace (e # es) w = w # pull_trace es (snd (pullServer e w))"

text \<open>The environment in which every unique violation is answered as an accepted insert.\<close>

definition as_success :: "env \<Rightarrow> env" where
  "as_success e =
     e\<lparr>insert_reply :=
         (\<lambda>i row. case insert_reply e i row of
                     None \<Rightarrow> None
                   | Some err \<Rightarrow> if duplicate_key err then None else Some err)\<rparr>"

text \<open>
  The invariant of History: the \<open>serverId\<close>s that are present are pairwise different.
\<close>

fun non_null_ids :: "LocalScan list \<Rightarrow> string list" where
  "non_null_ids [] = []"
| "non_null_ids (x # xs) = (case serverId x of None \<Rightarrow> non_null_ids xs | Some s \<Rightarrow> s # non_null_ids xs)"

definition unique_server_ids :: "LocalScan list \<Rightarrow> bool" where
  "unique_server_ids h = distinct (non_null_ids h)"

text \<open>
  The rows of a reply are rows of the table \<^verbatim>\<open>scans\<close>, whose \<^verbatim>\<open>id\<close> is a number and
  the key of the row (the screens declare \<^verbatim>\<open>id: number\<close>, delete by it and use it as the
  list key): a reply lists no id twice, and \<^verbatim>\<open>String(row.id)\<close> is never the empty
  string. \<open>keyed_rows\<close> says this of a list of rows. \<open>keyed_at x w\<close>: the reply that the
  select of operation \<open>x\<close> gets when started in \<open>w\<close> is such (neither the cleanup nor the
  push changes the lower bound that the select sends). \<open>keyed_run ops w\<close>: so is every reply
  received along the sequence \<open>ops\<close> started in \<open>w\<close>.
\<close>

definition keyed_rows :: "ServerRow list \<Rightarrow> bool" where
  "keyed_rows rows = (distinct (map row_id rows) \<and> [] \<notin> set (map row_id rows))"

fun keyed_at :: "op \<Rightarrow> world \<Rightarrow> bool" where
  "keyed_at (Purge e) w = True"
| "keyed_at (Push e) w = True"
| "keyed_at (Pull e) w = keyed_rows (rows_of (select_reply e (since_of w)))"
| "keyed_at (Sync e) w = keyed_rows (rows_of (select_reply e (since_of w)))"

fun keyed_run :: "op list \<Rightarrow> world \<Rightarrow> bool" where
  "keyed_run [] w = True"
| "keyed_run (x # ops) w = (keyed_at x w \<and> keyed_run ops (apply_op x w))"

text \<open>
  \<open>stays_queued e uid hist i item\<close>: the processing of the item at position \<open>i\<close> does not
  reach \<^verbatim>\<open>pushed++\<close>: its insert is answered with an error that is no unique violation,
  or one of its awaited calls rejects (the tenant lookup, made when the item has no tenant;
  the insert; the read of History; the write of History, made when History \<open>hist\<close> has an
  entry of the item's \<open>localId\<close>).
\<close>

definition stays_queued :: "env \<Rightarrow> string \<Rightarrow> LocalScan list \<Rightarrow> nat \<Rightarrow> LocalScan \<Rightarrow> bool" where
  "stays_queued e uid hist i item =
     ((tenantId item = None \<and> throws e (PushTenant i)) \<or> throws e (PushInsert i) \<or>
      rejected (insert_reply e i (sent_row e uid i item)) \<or> throws e (PushReadHistory i) \<or>
      (localId item \<in> localId ` set hist \<and> throws e (PushWriteHistory i)))"

section \<open>Concrete states and environments\<close>

text \<open>
  An environment in which no call rejects, a session of user \<open>u1\<close> exists, every insert
  is accepted and the remote table holds no rows; the others differ from it in one answer.
\<close>

definition env_ok :: env where
  "env_ok =
     \<lparr>throws = (\<lambda>s. False), session = (\<lambda>s. Some ''u1''),
      membership = (\<lambda>i uid. \<lparr>m_data = Some (Some ''t1''), m_error = None\<rparr>),
      insert_reply = (\<lambda>i row. None),
      select_reply = (\<lambda>since. \<lparr>s_data = Some [], s_error = None\<rparr>),
      now = ''2025-01-02T00:00:00.000Z''\<rparr>"

definition network_error :: PgError where
  "network_error = \<lparr>code = None, message = Some ''Network request failed''\<rparr>"

definition duplicate_error :: PgError where
  "duplicate_error =
     \<lparr>code = Some ''23505'',
      message = Some ''duplicate key value violates unique constraint \"scans_client_ref_key\"''\<rparr>"

definition env_flag_rejects :: env where
  "env_flag_rejects = env_ok\<lparr>throws := (\<lambda>s. s = PurgeGetFlag)\<rparr>"

definition env_push_rejects :: env where
  "env_push_rejects = env_ok\<lparr>throws := (\<lambda>s. s = PushWriteOutbox)\<rparr>"

definition env_second_fails :: env where
  "env_second_fails = env_ok\<lparr>insert_reply := (\<lambda>i row. if i = 1 then Some network_error else None)\<rparr>"

definition env_duplicate :: env where
  "env_duplicate = env_ok\<lparr>insert_reply := (\<lambda>i row. Some duplicate_error)\<rparr>"

definition env_pull_error :: env where
  "env_pull_error = env_ok\<lparr>select_reply := (\<lambda>since. \<lparr>s_data = None, s_error = Some network_error\<rparr>)\<rparr>"

definition env_clock_back :: env where
  "env_clock_back = env_ok\<lparr>now := ''2024-12-31T23:59:59.000Z''\<rparr>"

definition env_later :: env where
  "env_later = env_ok\<lparr>now := ''2025-01-03T00:00:00.000Z''\<rparr>"

text \<open>Remote rows, and replies to the select that hold them.\<close>

definition row7 :: ServerRow where
  "row7 =
     \<lparr>row_id = ''7'', row_user_id = Some ''u2'', row_tenant_id = Some ''t1'',
      row_created_at = ''2025-01-01T12:00:00.000Z'', row_type = Some ''qrcode'', row_value = ''Z'',
      row_meta = None\<rparr>"

definition row8 :: ServerRow where
  "row8 = row7\<lparr>row_id := ''8'', row_created_at := ''2025-01-01T13:00:00.000Z''\<rparr>"

definition env_window :: env where
  "env_window = env_ok\<lparr>select_reply := (\<lambda>since. \<lparr>s_data = Some [row8, row7], s_error = None\<rparr>)\<rparr>"

text \<open>
  Two local scans (the second without a tenant, so that its tenant is looked up), and the
  stores used below: one left by the previous scheme, and two with records queued.
\<close>

definition scan_a :: LocalScan where
  "scan_a =
     \<lparr>localId = ''a'', serverId = None, userId = None, tenantId = Some ''t1'',
      createdAt = ''2025-01-01T10:00:00.000Z'', codeType = ''qrcode'', payload = ''X'',
      clientRef = ''a1'', meta = None, synced = False\<rparr>"

definition scan_b :: LocalScan where
  "scan_b =
     \<lparr>localId = ''b'', serverId = None, userId = None, tenantId = None,
      createdAt = ''2025-01-01T11:00:00.000Z'', codeType = ''barcode'', payload = ''Y'',
      clientRef = ''b1'', meta = None, synced = False\<rparr>"

definition w_fresh :: world where
  "w_fresh = \<lparr>kv = [''SYNC_LOCK'' \<mapsto> Str ''1'', ''PENDING_QUEUE'' \<mapsto> Str ''queue''], calls = []\<rparr>"

definition w_queued :: world where
  "w_queued =
     \<lparr>kv = [K_HISTORY \<mapsto> Scans [scan_b, scan_a], K_OUTBOX \<mapsto> Scans [scan_b, scan_a],
             K_LASTPULLED_AT \<mapsto> Str ''2025-01-01T00:00:00.000Z'',
             K_LEGACY_CLEANED \<mapsto> Str ''1''],
      calls = []\<rparr>"

definition w_one_queued :: world where
  "w_one_queued =
     \<lparr>kv = [K_HISTORY \<mapsto> Scans [scan_b, scan_a], K_OUTBOX \<mapsto> Scans [scan_a],
             K_LEGACY_CLEANED \<mapsto> Str ''1''],
      calls = []\<rparr>"

text \<open>
  Two environments in which every insert is accepted and one awaited call of the push
  rejects: the write of History for the first record processed, and the insert call of the
  first record processed (a rejected promise, not an error reply).
\<close>

definition env_history_write_rejects :: env where
  "env_history_write_rejects = env_ok\<lparr>throws := (\<lambda>s. s = PushWriteHistory 0)\<rparr>"

definition env_insert_rejects :: env where
  "env_insert_rejects = env_ok\<lparr>throws := (\<lambda>s. s = PushInsert 0)\<rparr>"

section \<open>The operations, call by call\<close>

subsection \<open>Storage calls and the cleanup\<close>

lemma await_eq:
  "await e s w = (if throws e s then Inl (Rejected s) else Inr (), logged [s] w)"
  by (simp add: await_def logged_def)

lemma getItem_eq:
  "getItem e s k w = (if throws e s then Inl (Rejected s) else Inr (kv w k), logged [s] w)"
  by (simp add: getItem_def bind_io_def await_def logged_def)

lemma setItem_eq:
  "setItem e s k v w =
     (if throws e s then (Inl (Rejected s), logged [s] w)
      else (Inr (), (logged [s] w)\<lparr>kv := (kv w)(k \<mapsto> v)\<rparr>))"
  by (simp add: setItem_def bind_io_def await_def logged_def)

lemma multiRemove_eq:
  "multiRemove e s ks w =
     (if throws e s then (Inl (Rejected s), logged [s] w)
      else (Inr (), (logged [s] w)\<lparr>kv := kv w |` (- set ks)\<rparr>))"
  by (simp add: multiRemove_def bind_io_def await_def logged_def)

lemma readJson_eq:
  "readJson e s k fb w =
     (if throws e s then Inl (Rejected s) else Inr (parse_or fb (kv w k)), logged [s] w)"
  by (simp add: readJson_def bind_io_def getItem_eq ret_def)

lemma writeJson_eq:
  "writeJson e s k v w =
     (if throws e s then (Inl (Rejected s), logged [s] w)
      else (Inr (), (logged [s] w)\<lparr>kv := (kv w)(k \<mapsto> Scans v)\<rparr>))"
  by (simp add: writeJson_def setItem_eq)

lemma kv_logged: "kv (logged ss w) = kv w"
  by (simp add: logged_def)

lemma calls_logged: "calls (logged ss w) = calls w @ ss"
  by (simp add: logged_def)

lemma logged_logged: "logged ts (logged ss w) = logged (ss @ ts) w"
  by (simp add: logged_def)

lemma history_of_logged: "history_of (logged ss w) = history_of w"
  by (simp add: history_of_def kv_logged)

lemma keys_distinct:
  "K_HISTORY \<noteq> K_OUTBOX" "K_HISTORY \<noteq> K_LASTPULLED_AT" "K_HISTORY \<noteq> K_LEGACY_CLEANED"
  "K_OUTBOX \<noteq> K_LASTPULLED_AT" "K_OUTBOX \<noteq> K_LEGACY_CLEANED" "K_LASTPULLED_AT \<noteq> K_LEGACY_CLEANED"
  "K_LEGACY_CLEANED \<notin> set LEGACY_KEYS"
  by (simp_all add: K_HISTORY_def K_OUTBOX_def K_LASTPULLED_AT_def K_LEGACY_CLEANED_def LEGACY_KEYS_def)

lemma purge_eq:
  "purgeLegacyArtifactsOnce e w =
    (if throws e PurgeGetFlag then (Inl (Rejected PurgeGetFlag), logged [PurgeGetFlag] w)
     else if truthy (kv w K_LEGACY_CLEANED) then (Inr (), logged [PurgeGetFlag] w)
     else if throws e PurgeRemove then
       (Inl (Rejected PurgeRemove), logged [PurgeGetFlag, PurgeRemove] w)
     else if throws e PurgeSetFlag then
       (Inl (Rejected PurgeSetFlag),
        (logged [PurgeGetFlag, PurgeRemove, PurgeSetFlag] w)\<lparr>kv := kv w |` (- set LEGACY_KEYS)\<rparr>)
     else
       (Inr (),
        (logged [PurgeGetFlag, PurgeRemove, PurgeSetFlag] w)
          \<lparr>kv := (kv w |` (- set LEGACY_KEYS))(K_LEGACY_CLEANED \<mapsto> Str ''1'')\<rparr>))"
  by (simp add: purgeLegacyArtifactsOnce_def bind_io_def getItem_eq setItem_eq multiRemove_eq
        ret_def logged_def)

lemma purge_frame:
  assumes "truthy (kv w K_LEGACY_CLEANED)"
  shows "kv (snd (purgeLegacyArtifactsOnce e w)) = kv w"
  using assms by (simp add: purge_eq kv_logged)

lemma purge_sets_flag:
  "fst (purgeLegacyArtifactsOnce e w) = Inr () \<Longrightarrow>
     truthy (kv (snd (purgeLegacyArtifactsOnce e w)) K_LEGACY_CLEANED)"
  by (simp add: purge_eq kv_logged split: if_splits)

lemma purge_history: "history_of (snd (purgeLegacyArtifactsOnce e w)) = history_of w"
  by (simp add: purge_eq history_of_def kv_logged K_HISTORY_def K_LEGACY_CLEANED_def LEGACY_KEYS_def)

subsection \<open>One record of the push loop\<close>

lemma marks_only_refl: "marks_only C uid h h"
  by (simp add: marks_only_def list_all2_same)

lemma marks_only_mono: "marks_only C uid h h' \<Longrightarrow> C \<subseteq> D \<Longrightarrow> marks_only D uid h h'"
  unfolding marks_only_def by (erule list_all2_mono) auto

lemma marks_only_trans:
  assumes "marks_only C uid h1 h2" "marks_only C uid h2 h3"
  shows "marks_only C uid h1 h3"
proof -
  have "list_all2 (\<lambda>a c. c = a \<or> (localId a \<in> C \<and> c = mark uid a)) h1 h3"
    using assms unfolding marks_only_def
    by (rule list_all2_trans[rotated]) (auto simp: mark_def)
  then show ?thesis by (simp add: marks_only_def)
qed

lemma findIndex_Some: "findIndex P xs = Some idx \<Longrightarrow> idx < length xs \<and> P (xs ! idx)"
  by (induction xs arbitrary: idx) (auto split: if_splits)

lemma marks_only_update:
  assumes "idx < length h" "localId (h ! idx) \<in> C"
  shows "marks_only C uid h (h[idx := mark uid (h ! idx)])"
  using assms unfolding marks_only_def
  by (auto simp: list_all2_conv_all_nth nth_list_update)

lemma marks_only_serverId: "marks_only C uid h h' \<Longrightarrow> map serverId h' = map serverId h"
  unfolding marks_only_def
  by (induction h h' rule: list_all2_induct) (auto simp: mark_def)

lemma mark_synced_kv:
  assumes "mark_synced e uid i item w = (r, w')"
  shows "kv w' = kv w \<or>
     (\<exists>idx. findIndex (\<lambda>h. localId h = localId item) (history_of w) = Some idx \<and>
        kv w' = (kv w)(K_HISTORY \<mapsto> Scans ((history_of w)[idx := mark uid (history_of w ! idx)])))"
  using assms
  by (auto simp: mark_synced_def bind_io_def readJson_eq writeJson_eq ret_def history_of_def mark_def
        kv_logged split: if_splits option.splits)

lemma tenant_step:
  assumes "(case tenantId item of Some t \<Rightarrow> ret (Some t) | None \<Rightarrow> ensureTenantId e i uid) w = (r0, w0)"
  shows "kv w0 = kv w" and "r0 = Inr t \<Longrightarrow> make_row uid t item = sent_row e uid i item"
  using assms
  by (auto simp: ret_def sent_row_def ensureTenantId_def bind_io_def await_eq Let_def kv_logged
           split: option.splits if_splits)

lemma push_item_kv:
  assumes "push_item e uid i item w = (r, w')"
  shows "kv w' = kv w \<or>
     (r \<noteq> Inr False \<and> confirmed e uid i item \<and>
      (\<exists>idx. findIndex (\<lambda>h. localId h = localId item) (history_of w) = Some idx \<and>
        kv w' = (kv w)(K_HISTORY \<mapsto> Scans ((history_of w)[idx := mark uid (history_of w ! idx)]))))"
proof -
  obtain r0 w0 where t: "(case tenantId item of Some t \<Rightarrow> ret (Some t) | None \<Rightarrow> ensureTenantId e i uid) w = (r0, w0)"
    by fastforce
  note k0 = tenant_step(1)[OF t]
  show ?thesis
  proof (cases r0)
    case (Inl x)
    with t assms k0 show ?thesis by (simp add: push_item_def bind_io_def)
  next
    case (Inr tenant)
    note row = tenant_step(2)[OF t Inr]
    show ?thesis
    proof (cases "throws e (PushInsert i) \<or> rejected (insert_reply e i (make_row uid tenant item))")
      case True
      with t assms k0 Inr show ?thesis
        by (auto simp: push_item_def bind_io_def await_eq ret_def kv_logged split: if_splits)
    next
      case False
      obtain r1 w1 where m: "mark_synced e uid i item (logged [PushInsert i] w0) = (r1, w1)"
        by fastforce
      have h0: "history_of (logged [PushInsert i] w0) = history_of w"
        using k0 by (simp add: history_of_def kv_logged)
      from t assms Inr False m have "w' = w1" and "r \<noteq> Inr False"
        by (auto simp: push_item_def bind_io_def await_eq ret_def split: sum.splits)
      moreover have "confirmed e uid i item"
        using False row by (simp add: confirmed_def)
      ultimately show ?thesis using mark_synced_kv[OF m] h0 k0 by (auto simp: kv_logged)
    qed
  qed
qed

lemma push_item_frame:
  assumes "push_item e uid i item w = (r, w')" "k \<noteq> K_HISTORY"
  shows "kv w' k = kv w k"
  using push_item_kv[OF assms(1)] assms(2) by auto

lemma push_item_history:
  assumes "push_item e uid i item w = (r, w')" "confirmed e uid i item \<Longrightarrow> localId item \<in> C"
  shows "marks_only C uid (history_of w) (history_of w')"
  using push_item_kv[OF assms(1)]
proof
  assume "kv w' = kv w"
  then show ?thesis by (simp add: history_of_def marks_only_refl)
next
  assume a: "r \<noteq> Inr False \<and> confirmed e uid i item \<and>
      (\<exists>idx. findIndex (\<lambda>h. localId h = localId item) (history_of w) = Some idx \<and>
        kv w' = (kv w)(K_HISTORY \<mapsto> Scans ((history_of w)[idx := mark uid (history_of w ! idx)])))"
  then obtain idx where f: "findIndex (\<lambda>h. localId h = localId item) (history_of w) = Some idx"
    and k: "kv w' = (kv w)(K_HISTORY \<mapsto> Scans ((history_of w)[idx := mark uid (history_of w ! idx)]))"
    by blast
  have h': "history_of w' = (history_of w)[idx := mark uid (history_of w ! idx)]"
    by (simp add: history_of_def[of w'] k)
  from findIndex_Some[OF f] a assms(2) show ?thesis
    unfolding h' by (intro marks_only_update) auto
qed

lemma parse_or_nonempty: "parse_or [] v \<noteq> [] \<Longrightarrow> \<exists>h. v = Some (Scans h)"
  by (cases "([] :: LocalScan list, v)" rule: parse_or.cases) auto

lemma push_item_raw:
  assumes "push_item e uid i item w = (r, w')"
  shows "kv w' K_HISTORY = kv w K_HISTORY \<or>
         (\<exists>h h'. kv w K_HISTORY = Some (Scans h) \<and> kv w' K_HISTORY = Some (Scans h'))"
  using push_item_kv[OF assms]
proof
  assume "kv w' = kv w"
  then show ?thesis by simp
next
  assume "r \<noteq> Inr False \<and> confirmed e uid i item \<and>
      (\<exists>idx. findIndex (\<lambda>h. localId h = localId item) (history_of w) = Some idx \<and>
        kv w' = (kv w)(K_HISTORY \<mapsto> Scans ((history_of w)[idx := mark uid (history_of w ! idx)])))"
  then obtain idx where f: "findIndex (\<lambda>h. localId h = localId item) (history_of w) = Some idx"
    and k: "kv w' = (kv w)(K_HISTORY \<mapsto> Scans ((history_of w)[idx := mark uid (history_of w ! idx)]))"
    by blast
  from findIndex_Some[OF f] have "history_of w \<noteq> []" by auto
  then obtain h where "kv w K_HISTORY = Some (Scans h)"
    using parse_or_nonempty by (auto simp: history_of_def)
  with k show ?thesis by simp
qed

lemma push_item_fst:
  assumes "\<forall>s. \<not> throws e s"
  shows "fst (push_item e uid i item w) = Inr (confirmed e uid i item)"
  using assms
  by (auto simp: push_item_def confirmed_def sent_row_def ensureTenantId_def mark_synced_def bind_io_def
        ret_def await_eq readJson_eq writeJson_eq Let_def split: option.splits)

lemma push_item_snd:
  assumes "\<forall>s. \<not> throws e s"
  shows "kv (snd (push_item e uid i item w)) =
     (if confirmed e uid i item then
        (case findIndex (\<lambda>h. localId h = localId item) (history_of w) of
           None \<Rightarrow> kv w
         | Some idx \<Rightarrow> (kv w)(K_HISTORY \<mapsto> Scans ((history_of w)[idx := mark uid (history_of w ! idx)])))
      else kv w)"
  using assms
  by (auto simp: push_item_def confirmed_def sent_row_def ensureTenantId_def mark_synced_def bind_io_def
        ret_def await_eq readJson_eq writeJson_eq Let_def kv_logged history_of_def mark_def
        split: option.splits)

subsection \<open>The push loop and \<^verbatim>\<open>pushOutbox\<close>\<close>

lemma push_items_effect:
  "push_items e uid i items p f w = (r, w') \<Longrightarrow>
     (\<exists>p' f'. r = Inr (p', f') \<and> p' + length f' = p + length f + length items) \<and>
     (\<forall>k. k \<noteq> K_HISTORY \<longrightarrow> kv w' k = kv w k) \<and>
     marks_only (set (confirmed_ids e uid i items)) uid (history_of w) (history_of w')"
proof (induction items arbitrary: i p f w)
  case Nil
  then show ?case by (auto simp: marks_only_refl)
next
  case (Cons item rest)
  obtain r1 w1 where s: "push_item e uid i item w = (r1, w1)" by fastforce
  define p1 where "p1 = (if r1 = Inr True then Suc p else p)"
  define f1 where "f1 = (if r1 = Inr True then f else f @ [item])"
  have rec: "push_items e uid (Suc i) rest p1 f1 w1 = (r, w')"
    using Cons.prems s unfolding p1_def f1_def
    by (cases r1) (auto split: bool.splits)
  note ih = Cons.IH[OF rec]
  have sub1: "set (confirmed_ids e uid (Suc i) rest) \<subseteq> set (confirmed_ids e uid i (item # rest))"
    by (auto simp: confirmed_ids_def)
  have a: "marks_only (set (confirmed_ids e uid i (item # rest))) uid (history_of w) (history_of w1)"
    by (rule push_item_history[OF s]) (auto simp: confirmed_ids_def)
  have b: "marks_only (set (confirmed_ids e uid i (item # rest))) uid (history_of w1) (history_of w')"
    using ih by (blast intro: marks_only_mono[OF _ sub1])
  have c: "\<exists>p' f'. r = Inr (p', f') \<and> p' + length f' = p + length f + length (item # rest)"
    using ih by (auto simp: p1_def f1_def split: if_splits)
  have d: "\<forall>k. k \<noteq> K_HISTORY \<longrightarrow> kv w' k = kv w k"
    using ih push_item_frame[OF s] by simp
  from marks_only_trans[OF a b] c d show ?case by blast
qed

lemma push_items_raw:
  "push_items e uid i items p f w = (r, w') \<Longrightarrow>
     kv w' K_HISTORY = kv w K_HISTORY \<or>
     (\<exists>h h'. kv w K_HISTORY = Some (Scans h) \<and> kv w' K_HISTORY = Some (Scans h'))"
proof (induction items arbitrary: i p f w)
  case Nil
  then show ?case by auto
next
  case (Cons item rest)
  obtain r1 w1 where s: "push_item e uid i item w = (r1, w1)" by fastforce
  define p1 where "p1 = (if r1 = Inr True then Suc p else p)"
  define f1 where "f1 = (if r1 = Inr True then f else f @ [item])"
  have rec: "push_items e uid (Suc i) rest p1 f1 w1 = (r, w')"
    using Cons.prems s unfolding p1_def f1_def
    by (cases r1) (auto split: bool.splits)
  from Cons.IH[OF rec] push_item_raw[OF s] show ?case by auto
qed

lemma subseq_rev: "subseq xs ys \<Longrightarrow> subseq (rev xs) (rev ys)"
  by (induction rule: list_emb.induct) (auto intro: subseq_rev_drop_many list_emb_append_mono)

lemma pushOutbox_eq:
  "pushOutbox e w =
     (if throws e PushSession then (Inl (Rejected PushSession), logged [PushSession] w)
      else case session e PushSession of
        None \<Rightarrow>
          (Inr \<lparr>pushed = 0, failed = None, push_reason = Some ''no-session''\<rparr>, logged [PushSession] w)
      | Some uid \<Rightarrow>
         if throws e PushReadOutbox then
           (Inl (Rejected PushReadOutbox), logged [PushSession, PushReadOutbox] w)
         else if outbox_of w = [] then
           (Inr \<lparr>pushed = 0, failed = None, push_reason = None\<rparr>, logged [PushSession, PushReadOutbox] w)
         else
           (case push_items e uid 0 (rev (outbox_of w)) 0 [] (logged [PushSession, PushReadOutbox] w) of
              (Inl x, w') \<Rightarrow> (Inl x, w')
            | (Inr (n, failures), w') \<Rightarrow>
                if throws e PushWriteOutbox then (Inl (Rejected PushWriteOutbox), logged [PushWriteOutbox] w')
                else (Inr \<lparr>pushed = n, failed = Some (length failures), push_reason = None\<rparr>,
                      (logged [PushWriteOutbox] w')\<lparr>kv := (kv w')(K_OUTBOX \<mapsto> Scans (rev failures))\<rparr>)))"
  by (simp add: pushOutbox_def bind_io_def await_eq readJson_eq writeJson_eq ret_def outbox_of_def
        logged_def Let_def split: option.splits sum.splits prod.splits)

lemma pushOutbox_frame:
  assumes "k \<noteq> K_HISTORY" "k \<noteq> K_OUTBOX"
  shows "kv (snd (pushOutbox e w)) k = kv w k"
proof (cases "\<not> throws e PushSession \<and> session e PushSession \<noteq> None \<and> \<not> throws e PushReadOutbox \<and> outbox_of w \<noteq> []")
  case False
  then show ?thesis by (auto simp: pushOutbox_eq kv_logged split: option.splits)
next
  case True
  then obtain uid where u: "session e PushSession = Some uid" by auto
  obtain r w' where l: "push_items e uid 0 (rev (outbox_of w)) 0 [] (logged [PushSession, PushReadOutbox] w) = (r, w')"
    by fastforce
  from push_items_effect[OF l] assms have "kv w' k = kv w k" by (simp add: kv_logged)
  with True u l assms show ?thesis
    by (auto simp: pushOutbox_eq kv_logged split: sum.splits prod.splits)
qed

lemma pushOutbox_returns:
  assumes "session e PushSession = Some uid"
    and "\<not> throws e PushSession" "\<not> throws e PushReadOutbox" "\<not> throws e PushWriteOutbox"
  shows "\<exists>r. fst (pushOutbox e w) = Inr r"
proof (cases "outbox_of w = []")
  case True
  with assms show ?thesis by (simp add: pushOutbox_eq)
next
  case False
  obtain r w' where l: "push_items e uid 0 (rev (outbox_of w)) 0 [] (logged [PushSession, PushReadOutbox] w) = (r, w')"
    by fastforce
  from push_items_effect[OF l] obtain n fs where "r = Inr (n, fs)" by blast
  with assms False l show ?thesis by (simp add: pushOutbox_eq)
qed

lemma pushOutbox_counts:
  assumes "session e PushSession = Some uid" and "fst (pushOutbox e w) = Inr r"
  shows "pushed r + (case failed r of None \<Rightarrow> 0 | Some n \<Rightarrow> n) = length (outbox_of w)"
    and "outbox_of w \<noteq> [] \<Longrightarrow> failed r \<noteq> None"
proof -
  have "pushed r + (case failed r of None \<Rightarrow> 0 | Some n \<Rightarrow> n) = length (outbox_of w)
        \<and> (outbox_of w \<noteq> [] \<longrightarrow> failed r \<noteq> None)"
  proof (cases "outbox_of w = []")
    case True
    with assms show ?thesis by (auto simp: pushOutbox_eq split: if_splits)
  next
    case False
    obtain r' w' where l: "push_items e uid 0 (rev (outbox_of w)) 0 [] (logged [PushSession, PushReadOutbox] w) = (r', w')"
      by fastforce
    from push_items_effect[OF l] obtain n fs where r': "r' = Inr (n, fs)"
      and c: "n + length fs = length (outbox_of w)" by auto
    with assms False l show ?thesis by (auto simp: pushOutbox_eq split: if_splits)
  qed
  then show "pushed r + (case failed r of None \<Rightarrow> 0 | Some n \<Rightarrow> n) = length (outbox_of w)"
    and "outbox_of w \<noteq> [] \<Longrightarrow> failed r \<noteq> None" by auto
qed

lemma push_single_confirmed:
  assumes "session e PushSession = Some uid" and "\<forall>s. \<not> throws e s"
    and "outbox_of w = [item]" and "confirmed e uid 0 item"
  shows "fst (pushOutbox e w) = Inr \<lparr>pushed = 1, failed = Some 0, push_reason = None\<rparr>"
    and "outbox_of (snd (pushOutbox e w)) = []"
    and "history_of (snd (pushOutbox e w)) =
           (case findIndex (\<lambda>h. localId h = localId item) (history_of w) of
              None \<Rightarrow> history_of w
            | Some idx \<Rightarrow> (history_of w)[idx := mark uid (history_of w ! idx)])"
proof -
  let ?w0 = "logged [PushSession, PushReadOutbox] w"
  obtain r1 w1 where s: "push_item e uid 0 item ?w0 = (r1, w1)" by fastforce
  have r1: "r1 = Inr True"
    using push_item_fst[OF assms(2), of uid 0 item ?w0] s assms(4) by simp
  have k1: "kv w1 =
     (case findIndex (\<lambda>h. localId h = localId item) (history_of w) of
        None \<Rightarrow> kv w
      | Some idx \<Rightarrow> (kv w)(K_HISTORY \<mapsto> Scans ((history_of w)[idx := mark uid (history_of w ! idx)])))"
    using push_item_snd[OF assms(2), of uid 0 item ?w0] s assms(4)
    by (simp add: kv_logged history_of_logged cong: option.case_cong)
  have p: "pushOutbox e w =
     (Inr \<lparr>pushed = 1, failed = Some 0, push_reason = None\<rparr>,
      (logged [PushWriteOutbox] w1)\<lparr>kv := (kv w1)(K_OUTBOX \<mapsto> Scans [])\<rparr>)"
    using assms(1,2,3) s r1 by (simp add: pushOutbox_eq)
  show "fst (pushOutbox e w) = Inr \<lparr>pushed = 1, failed = Some 0, push_reason = None\<rparr>"
    by (simp add: p)
  show "outbox_of (snd (pushOutbox e w)) = []"
    by (simp add: p outbox_of_def)
  show "history_of (snd (pushOutbox e w)) =
           (case findIndex (\<lambda>h. localId h = localId item) (history_of w) of
              None \<Rightarrow> history_of w
            | Some idx \<Rightarrow> (history_of w)[idx := mark uid (history_of w ! idx)])"
    by (simp add: p k1 history_of_def[of "_\<lparr>kv := _\<rparr>"] keys_distinct split: option.splits)
       (simp add: history_of_def)
qed

lemma stored_marks_onlyI:
  assumes "marks_only C uid (parse_or [] v) (parse_or [] v')"
    and "v' = v \<or> (\<exists>h h'. v = Some (Scans h) \<and> v' = Some (Scans h'))"
  shows "stored_marks_only C uid v v'"
  using assms(2)
proof
  assume "v' = v"
  then show ?thesis
    by (auto simp: stored_marks_only_def marks_only_refl split: option.splits sval.splits)
next
  assume "\<exists>h h'. v = Some (Scans h) \<and> v' = Some (Scans h')"
  with assms(1) show ?thesis by (auto simp: stored_marks_only_def)
qed

lemma stored_marks_only_parsed:
  "stored_marks_only C uid v v' \<Longrightarrow> marks_only C uid (parse_or [] v) (parse_or [] v')"
  by (cases "([] :: LocalScan list, v)" rule: parse_or.cases;
      cases "([] :: LocalScan list, v')" rule: parse_or.cases)
     (auto simp: stored_marks_only_def marks_only_refl)

lemma pushOutbox_history:
  "case session e PushSession of
     None \<Rightarrow> kv (snd (pushOutbox e w)) K_HISTORY = kv w K_HISTORY
   | Some uid \<Rightarrow>
       stored_marks_only (set (confirmed_ids e uid 0 (rev (outbox_of w)))) uid
         (kv w K_HISTORY) (kv (snd (pushOutbox e w)) K_HISTORY)"
proof (cases "session e PushSession")
  case None
  then show ?thesis by (simp add: pushOutbox_eq kv_logged)
next
  case (Some uid)
  let ?C = "set (confirmed_ids e uid 0 (rev (outbox_of w)))"
  let ?w0 = "logged [PushSession, PushReadOutbox] w"
  obtain r w' where l: "push_items e uid 0 (rev (outbox_of w)) 0 [] ?w0 = (r, w')"
    by fastforce
  have a: "stored_marks_only ?C uid (kv w K_HISTORY) (kv w' K_HISTORY)"
    using push_items_effect[OF l] push_items_raw[OF l]
    by (intro stored_marks_onlyI) (auto simp: history_of_def kv_logged)
  have b: "stored_marks_only ?C uid (kv w K_HISTORY) (kv w K_HISTORY)"
    by (intro stored_marks_onlyI) (auto simp: marks_only_refl)
  have "kv (snd (pushOutbox e w)) K_HISTORY = kv w K_HISTORY
      \<or> kv (snd (pushOutbox e w)) K_HISTORY = kv w' K_HISTORY"
    using Some l keys_distinct
    by (auto simp: pushOutbox_eq kv_logged split: sum.splits prod.splits)
  with a b Some show ?thesis by auto
qed


lemma pushOutbox_serverId:
  "map serverId (history_of (snd (pushOutbox e w))) = map serverId (history_of w)"
proof (cases "session e PushSession")
  case None
  with pushOutbox_history[of e w] show ?thesis by (simp add: history_of_def)
next
  case (Some uid)
  with pushOutbox_history[of e w] show ?thesis
    by (auto simp: history_of_def dest!: stored_marks_only_parsed marks_only_serverId)
qed

subsection \<open>\<^verbatim>\<open>pullServer\<close>\<close>

lemma pullServer_eq:
  "pullServer e w =
     (if throws e PullSession then (Inl (Rejected PullSession), logged [PullSession] w)
      else if session e PullSession = None then
        (Inr \<lparr>pulled = 0, pull_reason = Some ''no-session''\<rparr>, logged [PullSession] w)
      else if throws e PullReadSince then
        (Inl (Rejected PullReadSince), logged [PullSession, PullReadSince] w)
      else if throws e PullQuery then
        (Inl (Rejected PullQuery), logged [PullSession, PullReadSince, PullQuery] w)
      else if s_error (select_reply e (since_of w)) \<noteq> None then
        (Inr \<lparr>pulled = 0, pull_reason = Some ''pull-error''\<rparr>,
         logged [PullSession, PullReadSince, PullQuery] w)
      else if throws e PullReadHistory then
        (Inl (Rejected PullReadHistory), logged [PullSession, PullReadSince, PullQuery, PullReadHistory] w)
      else
        let (merged, added) =
              merge_rows (server_ids (history_of w)) (rows_of (select_reply e (since_of w))) (history_of w) 0
        in
        if throws e PullWriteHistory then
          (Inl (Rejected PullWriteHistory),
           logged [PullSession, PullReadSince, PullQuery, PullReadHistory, PullWriteHistory] w)
        else if throws e PullSetSince then
          (Inl (Rejected PullSetSince),
           (logged [PullSession, PullReadSince, PullQuery, PullReadHistory, PullWriteHistory, PullSetSince] w)
             \<lparr>kv := (kv w)(K_HISTORY \<mapsto> Scans (sort_history merged))\<rparr>)
        else
          (Inr \<lparr>pulled = added, pull_reason = None\<rparr>,
           (logged [PullSession, PullReadSince, PullQuery, PullReadHistory, PullWriteHistory, PullSetSince] w)
             \<lparr>kv := (kv w)(K_HISTORY \<mapsto> Scans (sort_history merged), K_LASTPULLED_AT \<mapsto> Str (now e))\<rparr>))"
  by (simp add: pullServer_def bind_io_def await_eq getItem_eq readJson_eq writeJson_eq setItem_eq ret_def
        history_of_def since_of_def rows_of_def logged_def Let_def split: option.splits prod.splits)

lemma pullServer_frame:
  assumes "k \<noteq> K_HISTORY" "k \<noteq> K_LASTPULLED_AT"
  shows "kv (snd (pullServer e w)) k = kv w k"
  using assms by (simp add: pullServer_eq kv_logged Let_def split: prod.splits)

lemma pullServer_attempted: "\<exists>ss. calls (snd (pullServer e w)) = calls w @ PullSession # ss"
  by (simp add: pullServer_eq calls_logged Let_def split: prod.splits)

lemma pull_watermark_step:
  "kv (snd (pullServer e w)) K_LASTPULLED_AT = kv w K_LASTPULLED_AT \<or>
   (kv (snd (pullServer e w)) K_LASTPULLED_AT = Some (Str (now e)) \<and>
    (\<exists>n. fst (pullServer e w) = Inr \<lparr>pulled = n, pull_reason = None\<rparr>))"
  by (simp add: pullServer_eq kv_logged Let_def keys_distinct keys_distinct(2)[symmetric] split: prod.splits)

lemma merge_rows_eq:
  "merge_rows B rows h n =
     (h @ map from_row (filter (\<lambda>r. row_id r \<notin> set B) rows),
      n + length (filter (\<lambda>r. row_id r \<notin> set B) rows))"
  by (induction rows arbitrary: h n) simp_all

lemma pullServer_history:
  "history_of (snd (pullServer e w)) = history_of w \<or>
   history_of (snd (pullServer e w)) =
     sort_history (fst (merge_rows (server_ids (history_of w)) (rows_of (select_reply e (since_of w)))
        (history_of w) 0))"
  by (simp add: pullServer_eq kv_logged history_of_def[of "_\<lparr>kv := _\<rparr>"] history_of_logged Let_def
        keys_distinct split: prod.splits)

subsection \<open>\<^verbatim>\<open>syncAll\<close> and sequences of operations\<close>

lemma syncAll_eq:
  "syncAll e w =
     (case purgeLegacyArtifactsOnce e w of
        (Inl x, w1) \<Rightarrow> (Inl x, w1)
      | (Inr u, w1) \<Rightarrow>
          (case pushOutbox e w1 of
             (Inl x, w2) \<Rightarrow> (Inr error_result, w2)
           | (Inr p, w2) \<Rightarrow>
               (case pullServer e w2 of
                  (Inl x, w3) \<Rightarrow> (Inr error_result, w3)
                | (Inr q, w3) \<Rightarrow> (Inr \<lparr>push = p, pull = q, error = False\<rparr>, w3))))"
  by (simp add: syncAll_def try_catch_def bind_io_def ret_def error_result_def
        split: prod.splits sum.splits)

lemma snd_syncAll:
  "snd (syncAll e w) =
     (case purgeLegacyArtifactsOnce e w of
        (Inl x, w1) \<Rightarrow> w1
      | (Inr u, w1) \<Rightarrow>
          (case pushOutbox e w1 of
             (Inl x, w2) \<Rightarrow> w2
           | (Inr p, w2) \<Rightarrow> snd (pullServer e w2)))"
  by (simp add: syncAll_eq split: prod.splits sum.splits)

lemma syncAll_raises_iff:
  "fst (syncAll e w) = Inl x \<longleftrightarrow> fst (purgeLegacyArtifactsOnce e w) = Inl x"
  by (auto simp: syncAll_eq split: prod.splits sum.splits)

lemma syncAll_flag:
  assumes "truthy (kv w K_LEGACY_CLEANED)"
  shows "kv (snd (syncAll e w)) K_LEGACY_CLEANED = kv w K_LEGACY_CLEANED"
proof -
  obtain r1 w1 where p: "purgeLegacyArtifactsOnce e w = (r1, w1)" by fastforce
  obtain r2 w2 where q: "pushOutbox e w1 = (r2, w2)" by fastforce
  have a: "kv w1 = kv w" using purge_frame[OF assms, of e] p by simp
  have b: "kv w2 K_LEGACY_CLEANED = kv w1 K_LEGACY_CLEANED"
    using pushOutbox_frame[of K_LEGACY_CLEANED e w1] q keys_distinct by simp
  have c: "kv (snd (pullServer e w2)) K_LEGACY_CLEANED = kv w2 K_LEGACY_CLEANED"
    using pullServer_frame[of K_LEGACY_CLEANED e w2] keys_distinct by simp
  show ?thesis
    using a b c p q by (simp add: snd_syncAll split: sum.splits)
qed

lemma apply_op_flag:
  assumes "truthy (kv w K_LEGACY_CLEANED)"
  shows "kv (apply_op x w) K_LEGACY_CLEANED = kv w K_LEGACY_CLEANED"
proof (cases x)
  case (Purge e)
  then show ?thesis using purge_frame[OF assms] by simp
next
  case (Push e)
  then show ?thesis using pushOutbox_frame[of K_LEGACY_CLEANED e w] keys_distinct by simp
next
  case (Pull e)
  then show ?thesis using pullServer_frame[of K_LEGACY_CLEANED e w] keys_distinct by simp
next
  case (Sync e)
  then show ?thesis using syncAll_flag[OF assms] by simp
qed

lemma run_flag:
  "truthy (kv w K_LEGACY_CLEANED) \<Longrightarrow> kv (run ops w) K_LEGACY_CLEANED = kv w K_LEGACY_CLEANED"
proof (induction ops arbitrary: w)
  case Nil
  then show ?case by (simp add: run_def)
next
  case (Cons x ops)
  have "truthy (kv (apply_op x w) K_LEGACY_CLEANED)"
    using apply_op_flag[OF Cons.prems] Cons.prems by simp
  from Cons.IH[OF this] apply_op_flag[OF Cons.prems] show ?case
    by (simp add: run_def)
qed

subsection \<open>Evaluation on the concrete states\<close>

lemma eval_defs:
  "ret x w = (Inr x, w)"
  "bind_io m f w = (case m w of (Inl x, w') \<Rightarrow> (Inl x, w') | (Inr a, w') \<Rightarrow> f a w')"
  by (simp_all add: ret_def bind_io_def)

lemmas push_eval =
  pushOutbox_eq push_item_def mark_synced_def ensureTenantId_def eval_defs await_eq readJson_eq
  writeJson_eq outbox_of_def make_row_def logged_def K_LEGACY_CLEANED_def K_HISTORY_def K_OUTBOX_def
  K_LASTPULLED_AT_def

lemmas pull_eval =
  pullServer_eq since_of_def history_of_def rows_of_def server_ids_def sort_history_def compareFn_def
  logged_def K_LEGACY_CLEANED_def K_HISTORY_def K_OUTBOX_def K_LASTPULLED_AT_def

lemma network_error_retryable: "\<not> duplicate_key network_error"
  by code_simp

lemma duplicate_error_duplicate: "duplicate_key duplicate_error"
  by (simp add: duplicate_key_def duplicate_error_def)

lemma push_second_fails:
  "fst (pushOutbox env_second_fails w_queued) = Inr \<lparr>pushed = 1, failed = Some 1, push_reason = None\<rparr>"
  "outbox_of (snd (pushOutbox env_second_fails w_queued)) = [scan_b]"
  "history_of (snd (pushOutbox env_second_fails w_queued)) = [scan_b, mark ''u1'' scan_a]"
  by (simp_all add: push_eval history_of_def env_second_fails_def env_ok_def w_queued_def
        network_error_retryable mark_def scan_a_def scan_b_def)

section \<open>Properties\<close>

subsection \<open>Exceptions of \<^verbatim>\<open>syncAll\<close>\<close>

text \<open>
  Claim C1. \<^verbatim>\<open>syncAll\<close> awaits the cleanup before its \<^verbatim>\<open>try\<close>: when the read of
  the flag rejects, the rejection leaves \<^verbatim>\<open>syncAll\<close> as an exception, not as a result
  with the error flag. (By \<open>syncAll_raises_iff\<close> these are the only exceptions: a rejection
  inside push or pull becomes the error result.)
\<close>

theorem syncAll_raises_at_flag_read:
  "syncAll env_flag_rejects w_fresh = (Inl (Rejected PurgeGetFlag), logged [PurgeGetFlag] w_fresh)"
  by (simp add: syncAll_eq purge_eq env_flag_rejects_def env_ok_def)

subsection \<open>Records that stay in the Outbox\<close>

text \<open>
  The result of one record of the loop, written out, and what the loop leaves in its list
  of failures: the records at the positions that stay queued.
\<close>

lemma findIndex_None: "findIndex P xs = None \<longleftrightarrow> (\<forall>x\<in>set xs. \<not> P x)"
  by (induction xs) auto

lemma findIndex_localId:
  "findIndex (\<lambda>h. localId h = l) hist = None \<longleftrightarrow> l \<notin> localId ` set hist"
  by (auto simp: findIndex_None)

lemma push_item_result:
  "fst (push_item e uid i item w) =
     (if tenantId item = None \<and> throws e (PushTenant i) then Inl (Rejected (PushTenant i))
      else if throws e (PushInsert i) then Inl (Rejected (PushInsert i))
      else if rejected (insert_reply e i (sent_row e uid i item)) then Inr False
      else if throws e (PushReadHistory i) then Inl (Rejected (PushReadHistory i))
      else if findIndex (\<lambda>h. localId h = localId item) (history_of w) \<noteq> None
              \<and> throws e (PushWriteHistory i)
        then Inl (Rejected (PushWriteHistory i))
      else Inr True)"
  by (auto simp: push_item_def sent_row_def ensureTenantId_def mark_synced_def bind_io_def
        ret_def await_eq readJson_eq writeJson_eq Let_def history_of_def kv_logged
        split: option.splits)

lemma push_item_pushed:
  "fst (push_item e uid i item w) = Inr True \<longleftrightarrow> \<not> stays_queued e uid (history_of w) i item"
  unfolding push_item_result stays_queued_def
  using findIndex_localId[of "localId item" "history_of w"] by auto

lemma marks_only_localId: "marks_only C uid h h' \<Longrightarrow> map localId h' = map localId h"
  unfolding marks_only_def
  by (induction h h' rule: list_all2_induct) (auto simp: mark_def)

lemma push_item_localIds:
  assumes "push_item e uid i item w = (r, w')"
  shows "localId ` set (history_of w') = localId ` set (history_of w)"
proof -
  have "marks_only UNIV uid (history_of w) (history_of w')"
    by (rule push_item_history[OF assms]) simp
  from marks_only_localId[OF this] have "set (map localId (history_of w')) = set (map localId (history_of w))"
    by simp
  then show ?thesis by simp
qed

lemma stays_queued_cong:
  "localId ` set h' = localId ` set h \<Longrightarrow> stays_queued e uid h' = stays_queued e uid h"
  by (simp add: stays_queued_def fun_eq_iff)

lemma push_items_queued:
  "push_items e uid i items p f w = (r, w') \<Longrightarrow>
     \<exists>n. r = Inr (n, f @ map snd (filter (\<lambda>(j, x). stays_queued e uid (history_of w) j x)
                                  (enumerate i items)))"
proof (induction items arbitrary: i p f w)
  case Nil
  then show ?case by auto
next
  case (Cons item rest)
  obtain r1 w1 where s: "push_item e uid i item w = (r1, w1)" by fastforce
  have q: "stays_queued e uid (history_of w1) = stays_queued e uid (history_of w)"
    by (rule stays_queued_cong[OF push_item_localIds[OF s]])
  from push_item_pushed[of e uid i item w] s
  have t: "r1 = Inr True \<longleftrightarrow> \<not> stays_queued e uid (history_of w) i item" by simp
  show ?case
  proof (cases "stays_queued e uid (history_of w) i item")
    case True
    with t have "r1 \<noteq> Inr True" by simp
    with Cons.prems s have "push_items e uid (Suc i) rest p (f @ [item]) w1 = (r, w')"
      by (cases r1) (auto split: bool.splits)
    from Cons.IH[OF this] True show ?thesis by (simp add: q)
  next
    case False
    with t have "r1 = Inr True" by simp
    with Cons.prems s have "push_items e uid (Suc i) rest (Suc p) f w1 = (r, w')"
      by simp
    from Cons.IH[OF this] False show ?thesis by (simp add: q)
  qed
qed

lemma filter_enumerate_nths:
  "map snd (filter (\<lambda>(j, x). P j x) (enumerate i xs)) = nths xs {j. j < length xs \<and> P (j + i) (xs ! j)}"
proof (induction xs arbitrary: i)
  case Nil
  then show ?case by simp
next
  case (Cons x xs)
  have "{j. Suc j < Suc (length xs) \<and> P (Suc j + i) ((x # xs) ! Suc j)}
      = {j. j < length xs \<and> P (j + Suc i) (xs ! j)}" by simp
  with Cons[of "Suc i"] show ?case by (simp add: nths_Cons)
qed


lemma nths_length_card: "K \<subseteq> {i. i < length xs} \<Longrightarrow> length (nths xs K) = card K"
proof -
  assume "K \<subseteq> {i. i < length xs}"
  then have "{i. i < length xs \<and> i \<in> K} = K" by auto
  then show ?thesis by (simp add: length_nths)
qed

lemma pushOutbox_queued:
  assumes "session e PushSession = Some uid"
    and "\<not> throws e PushSession" and "\<not> throws e PushReadOutbox"
    and "K = {i. i < length (outbox_of w) \<and> stays_queued e uid (history_of w) i (rev (outbox_of w) ! i)}"
  shows "\<not> throws e PushWriteOutbox \<Longrightarrow>
           outbox_of (snd (pushOutbox e w)) = rev (nths (rev (outbox_of w)) K)
         \<and> fst (pushOutbox e w) =
             Inr \<lparr>pushed = length (outbox_of w) - card K,
                  failed = (if outbox_of w = [] then None else Some (card K)), push_reason = None\<rparr>"
    and "throws e PushWriteOutbox \<Longrightarrow> outbox_of w \<noteq> [] \<Longrightarrow>
           fst (pushOutbox e w) = Inl (Rejected PushWriteOutbox)
         \<and> kv (snd (pushOutbox e w)) K_OUTBOX = kv w K_OUTBOX"
proof -
  let ?w0 = "logged [PushSession, PushReadOutbox] w"
  let ?xs = "rev (outbox_of w)"
  obtain r w' where l: "push_items e uid 0 ?xs 0 [] ?w0 = (r, w')"
    by fastforce
  have fs: "map snd (filter (\<lambda>(j, x). stays_queued e uid (history_of ?w0) j x) (enumerate 0 ?xs)) = nths ?xs K"
    unfolding assms(4) using filter_enumerate_nths[of "stays_queued e uid (history_of w)" 0 ?xs]
    by (simp add: history_of_logged)
  from push_items_queued[OF l] fs obtain n where r: "r = Inr (n, nths ?xs K)" by auto
  have len: "length (nths ?xs K) = card K"
    by (rule nths_length_card) (auto simp: assms(4))
  from push_items_effect[OF l] r len have n: "n + card K = length (outbox_of w)" by simp
  have k: "kv w' K_OUTBOX = kv w K_OUTBOX"
    using push_items_effect[OF l] keys_distinct by (simp add: kv_logged)
  have e0: "outbox_of w = [] \<Longrightarrow> K = {}" by (simp add: assms(4))
  show "\<not> throws e PushWriteOutbox \<Longrightarrow>
           outbox_of (snd (pushOutbox e w)) = rev (nths (rev (outbox_of w)) K)
         \<and> fst (pushOutbox e w) =
             Inr \<lparr>pushed = length (outbox_of w) - card K,
                  failed = (if outbox_of w = [] then None else Some (card K)), push_reason = None\<rparr>"
    using assms(1-3) l r k n len e0 by (auto simp: pushOutbox_eq outbox_of_def kv_logged)
  show "throws e PushWriteOutbox \<Longrightarrow> outbox_of w \<noteq> [] \<Longrightarrow>
           fst (pushOutbox e w) = Inl (Rejected PushWriteOutbox)
         \<and> kv (snd (pushOutbox e w)) K_OUTBOX = kv w K_OUTBOX"
    using assms(1-3) l r k by (simp add: pushOutbox_eq kv_logged)
qed

text \<open>
  Claim C2, as amended. With a session, and the session lookup and the read of the Outbox
  not rejecting, let \<open>N\<close> be the number of records in the Outbox and \<open>K\<close> the positions (in
  iteration order, oldest first) of the records whose processing is not confirmed: the
  insert is answered with an error that is no unique violation, or an awaited call of that
  record rejects (the tenant lookup, the insert, the read of History, the write of History
  for a record that has a History entry); let \<open>M\<close> be the number of these positions.

  \<^item> If the final write of the Outbox does not reject, the Outbox holds afterwards exactly the
    records at the positions in \<open>K\<close>, as they were and in the order they had: \<open>M\<close> remain,
    and the result counts \<open>N - M\<close> pushed and \<open>M\<close> failed.
  \<^item> If the final write of the Outbox rejects and the Outbox was not empty, \<^verbatim>\<open>pushOutbox\<close>
    throws and the Outbox is left as it was stored: no record is removed.
  \<^item> If no awaited call of the loop rejects, \<open>K\<close> is the set of positions of the records whose
    insert is answered with an error that is no unique violation.
\<close>

theorem unconfirmed_records_stay_in_outbox:
  assumes "session e PushSession = Some uid"
    and "\<not> throws e PushSession" and "\<not> throws e PushReadOutbox"
    and "N = length (outbox_of w)"
    and "K = {i. i < N \<and> stays_queued e uid (history_of w) i (rev (outbox_of w) ! i)}"
    and "M = card K"
  shows "(\<not> throws e PushWriteOutbox \<longrightarrow>
            outbox_of (snd (pushOutbox e w)) = rev (nths (rev (outbox_of w)) K)
          \<and> subseq (outbox_of (snd (pushOutbox e w))) (outbox_of w)
          \<and> length (outbox_of (snd (pushOutbox e w))) = M
          \<and> (\<exists>r. fst (pushOutbox e w) = Inr r \<and> pushed r = N - M
                 \<and> failed r = (if N = 0 then None else Some M)))
       \<and> (throws e PushWriteOutbox \<and> N \<noteq> 0 \<longrightarrow>
            fst (pushOutbox e w) = Inl (Rejected PushWriteOutbox)
          \<and> kv (snd (pushOutbox e w)) K_OUTBOX = kv w K_OUTBOX)
       \<and> ((\<forall>i. \<not> throws e (PushTenant i) \<and> \<not> throws e (PushInsert i)
                \<and> \<not> throws e (PushReadHistory i) \<and> \<not> throws e (PushWriteHistory i)) \<longrightarrow>
            K = {i. i < N \<and> rejected (insert_reply e i (sent_row e uid i (rev (outbox_of w) ! i)))})"
proof (intro conjI impI)
  let ?xs = "rev (outbox_of w)"
  have K: "K = {i. i < length (outbox_of w) \<and> stays_queued e uid (history_of w) i (?xs ! i)}"
    using assms(4,5) by simp
  note q = pushOutbox_queued[OF assms(1-3) K]
  have len: "length (nths ?xs K) = M"
    unfolding assms(6) by (rule nths_length_card) (auto simp: K)
  {
    assume nt: "\<not> throws e PushWriteOutbox"
    from q(1)[OF nt] show o: "outbox_of (snd (pushOutbox e w)) = rev (nths ?xs K)" by simp
    show "subseq (outbox_of (snd (pushOutbox e w))) (outbox_of w)"
      unfolding o using subseq_rev[of "nths ?xs K" ?xs] subseq_conv_nths[of "nths ?xs K" ?xs] by auto
    show "length (outbox_of (snd (pushOutbox e w))) = M"
      unfolding o using len by simp
    from q(1)[OF nt] show "\<exists>r. fst (pushOutbox e w) = Inr r \<and> pushed r = N - M
                 \<and> failed r = (if N = 0 then None else Some M)"
      using assms(4,6) by simp
  }
  {
    assume "throws e PushWriteOutbox \<and> N \<noteq> 0"
    then have "throws e PushWriteOutbox" and "outbox_of w \<noteq> []" using assms(4) by auto
    from q(2)[OF this]
    show "fst (pushOutbox e w) = Inl (Rejected PushWriteOutbox)"
      and "kv (snd (pushOutbox e w)) K_OUTBOX = kv w K_OUTBOX" by simp_all
  }
  {
    assume "\<forall>i. \<not> throws e (PushTenant i) \<and> \<not> throws e (PushInsert i)
                \<and> \<not> throws e (PushReadHistory i) \<and> \<not> throws e (PushWriteHistory i)"
    then show "K = {i. i < N \<and> rejected (insert_reply e i (sent_row e uid i (rev (outbox_of w) ! i)))}"
      unfolding assms(5) by (simp add: stays_queued_def)
  }
qed

text \<open>
  The theorem on an Outbox of two records, in three environments. The insert call of the
  first record in iteration order (\<open>scan_a\<close>) rejects: \<open>scan_a\<close> remains and the result is
  1 pushed, 1 failed. The final write of the Outbox rejects: the call throws and the stored
  Outbox is the one before. No call rejects and the insert of the second record (\<open>scan_b\<close>)
  is answered with a network error: the positions that stay queued are those of the
  rejected inserts, and \<open>scan_b\<close> remains.
\<close>

lemma w_queued_arrays:
  "outbox_of w_queued = [scan_b, scan_a]" "history_of w_queued = [scan_b, scan_a]"
  by (simp_all add: outbox_of_def history_of_def w_queued_def K_HISTORY_def K_OUTBOX_def
        K_LASTPULLED_AT_def K_LEGACY_CLEANED_def)

lemma queued_positions:
  "{i. i < (2::nat) \<and> stays_queued env_insert_rejects ''u1'' (history_of w_queued) i
                        (rev (outbox_of w_queued) ! i)} = {0}"
  "{i. i < (2::nat) \<and> stays_queued env_second_fails ''u1'' (history_of w_queued) i
                        (rev (outbox_of w_queued) ! i)} = {1}"
  "{i. i < (2::nat) \<and> rejected (insert_reply env_second_fails i
         (sent_row env_second_fails ''u1'' i (rev (outbox_of w_queued) ! i)))} = {1}"
  by (auto simp: w_queued_arrays stays_queued_def env_insert_rejects_def env_second_fails_def
        env_ok_def network_error_retryable scan_a_def scan_b_def dest!: less_2_cases)

theorem unconfirmed_records_stay_in_outbox_witness:
  "session env_insert_rejects PushSession = Some ''u1''
   \<and> \<not> throws env_insert_rejects PushSession \<and> \<not> throws env_insert_rejects PushReadOutbox
   \<and> \<not> throws env_insert_rejects PushWriteOutbox
   \<and> (2::nat) = length (outbox_of w_queued)
   \<and> {i. i < (2::nat) \<and> stays_queued env_insert_rejects ''u1'' (history_of w_queued) i
                            (rev (outbox_of w_queued) ! i)} = {0}
   \<and> (1::nat) = card {0::nat}
   \<and> outbox_of (snd (pushOutbox env_insert_rejects w_queued)) = rev (nths (rev (outbox_of w_queued)) {0})
   \<and> outbox_of (snd (pushOutbox env_insert_rejects w_queued)) = [scan_a]
   \<and> subseq (outbox_of (snd (pushOutbox env_insert_rejects w_queued))) (outbox_of w_queued)
   \<and> length (outbox_of (snd (pushOutbox env_insert_rejects w_queued))) = 1
   \<and> (\<exists>r. fst (pushOutbox env_insert_rejects w_queued) = Inr r \<and> pushed r = 2 - 1
          \<and> failed r = (if (2::nat) = 0 then None else Some 1))
   \<and> session env_push_rejects PushSession = Some ''u1''
   \<and> \<not> throws env_push_rejects PushSession \<and> \<not> throws env_push_rejects PushReadOutbox
   \<and> throws env_push_rejects PushWriteOutbox
   \<and> fst (pushOutbox env_push_rejects w_queued) = Inl (Rejected PushWriteOutbox)
   \<and> kv (snd (pushOutbox env_push_rejects w_queued)) K_OUTBOX = kv w_queued K_OUTBOX
   \<and> session env_second_fails PushSession = Some ''u1''
   \<and> (\<forall>s. \<not> throws env_second_fails s)
   \<and> {i. i < (2::nat) \<and> stays_queued env_second_fails ''u1'' (history_of w_queued) i
                            (rev (outbox_of w_queued) ! i)}
       = {i. i < (2::nat) \<and> rejected (insert_reply env_second_fails i
             (sent_row env_second_fails ''u1'' i (rev (outbox_of w_queued) ! i)))}
   \<and> outbox_of (snd (pushOutbox env_second_fails w_queued)) = [scan_b]"
proof -
  have a: "session env_insert_rejects PushSession = Some ''u1''"
    "\<not> throws env_insert_rejects PushSession" "\<not> throws env_insert_rejects PushReadOutbox"
    and aw: "\<not> throws env_insert_rejects PushWriteOutbox"
    by (simp_all add: env_insert_rejects_def env_ok_def)
  have b: "session env_push_rejects PushSession = Some ''u1''"
    "\<not> throws env_push_rejects PushSession" "\<not> throws env_push_rejects PushReadOutbox"
    and bw: "throws env_push_rejects PushWriteOutbox"
    by (simp_all add: env_push_rejects_def env_ok_def)
  have c: "session env_second_fails PushSession = Some ''u1''"
    "\<not> throws env_second_fails PushSession" "\<not> throws env_second_fails PushReadOutbox"
    and cw: "\<forall>s. \<not> throws env_second_fails s"
    by (simp_all add: env_second_fails_def env_ok_def)
  have n: "(2::nat) = length (outbox_of w_queued)"
    by (simp add: w_queued_arrays)
  have m: "(1::nat) = card {0::nat}" by simp
  note ta = unconfirmed_records_stay_in_outbox[OF a n queued_positions(1)[symmetric] m]
  from ta aw
  have ra: "outbox_of (snd (pushOutbox env_insert_rejects w_queued)) = rev (nths (rev (outbox_of w_queued)) {0})"
    and sa: "subseq (outbox_of (snd (pushOutbox env_insert_rejects w_queued))) (outbox_of w_queued)"
    and la: "length (outbox_of (snd (pushOutbox env_insert_rejects w_queued))) = 1"
    and pa: "\<exists>r. fst (pushOutbox env_insert_rejects w_queued) = Inr r \<and> pushed r = 2 - 1
          \<and> failed r = (if (2::nat) = 0 then None else Some 1)"
    by blast+
  have va: "outbox_of (snd (pushOutbox env_insert_rejects w_queued)) = [scan_a]"
    unfolding ra by (simp add: w_queued_arrays nths_Cons)
  note tb = unconfirmed_records_stay_in_outbox[OF b n refl refl]
  have nz: "(2::nat) \<noteq> 0" by simp
  from tb bw nz
  have rb: "fst (pushOutbox env_push_rejects w_queued) = Inl (Rejected PushWriteOutbox)"
    and kb: "kv (snd (pushOutbox env_push_rejects w_queued)) K_OUTBOX = kv w_queued K_OUTBOX"
    by blast+
  note tc = unconfirmed_records_stay_in_outbox[OF c n refl refl]
  from tc cw
  have kc: "{i. i < (2::nat) \<and> stays_queued env_second_fails ''u1'' (history_of w_queued) i
                            (rev (outbox_of w_queued) ! i)}
       = {i. i < (2::nat) \<and> rejected (insert_reply env_second_fails i
             (sent_row env_second_fails ''u1'' i (rev (outbox_of w_queued) ! i)))}"
    by blast
  from a aw n queued_positions(1) m ra va sa la pa b bw rb kb c(1) cw kc push_second_fails(2)
  show ?thesis by blast
qed

text \<open>
  Claim C2 as stated fails when an awaited call rejects: the records that remain are then
  not those whose insert failed. Every insert is accepted in both environments, so no
  record fails with a retryable remote error. When the write of History rejects for \<open>scan_a\<close>, that record is
  counted as failed and stays in the Outbox. When the final write of the Outbox rejects,
  the call throws and both records stay.
\<close>

theorem accepted_record_stays_when_a_write_rejects:
  "(\<forall>i row. \<not> rejected (insert_reply env_history_write_rejects i row))
   \<and> outbox_of w_queued = [scan_b, scan_a]
   \<and> fst (pushOutbox env_history_write_rejects w_queued)
       = Inr \<lparr>pushed = 1, failed = Some 1, push_reason = None\<rparr>
   \<and> outbox_of (snd (pushOutbox env_history_write_rejects w_queued)) = [scan_a]
   \<and> (\<forall>i row. \<not> rejected (insert_reply env_push_rejects i row))
   \<and> fst (pushOutbox env_push_rejects w_queued) = Inl (Rejected PushWriteOutbox)
   \<and> outbox_of (snd (pushOutbox env_push_rejects w_queued)) = [scan_b, scan_a]"
  by (simp add: push_eval env_history_write_rejects_def env_push_rejects_def env_ok_def w_queued_def
        scan_a_def scan_b_def)

subsection \<open>A unique violation counts as pushed\<close>

lemma as_success_fields:
  "throws (as_success e) = throws e" "session (as_success e) = session e"
  "membership (as_success e) = membership e"
  "rejected (insert_reply (as_success e) i row) = rejected (insert_reply e i row)"
  by (auto simp: as_success_def split: option.splits)

lemma await_as_success: "await (as_success e) = await e"
  by (simp add: await_def as_success_fields fun_eq_iff)

lemma ensureTenantId_as_success: "ensureTenantId (as_success e) = ensureTenantId e"
  by (simp add: ensureTenantId_def await_as_success as_success_fields fun_eq_iff)

lemma storage_as_success:
  "readJson (as_success e) = readJson e" "writeJson (as_success e) = writeJson e"
  by (simp_all add: readJson_def writeJson_def getItem_def setItem_def await_as_success fun_eq_iff)

lemma mark_synced_as_success: "mark_synced (as_success e) = mark_synced e"
  by (simp add: mark_synced_def storage_as_success fun_eq_iff cong: option.case_cong)

lemma push_item_as_success: "push_item (as_success e) uid i item = push_item e uid i item"
  by (simp add: push_item_def ensureTenantId_as_success mark_synced_as_success await_as_success
        as_success_fields cong: if_cong option.case_cong)

lemma push_items_as_success:
  "push_items (as_success e) uid i items p f w = push_items e uid i items p f w"
  by (induction items arbitrary: i p f w)
     (simp_all add: push_item_as_success split: prod.splits sum.splits bool.splits)

lemma pushOutbox_as_success: "pushOutbox (as_success e) w = pushOutbox e w"
  by (simp add: pushOutbox_eq as_success_fields push_items_as_success
        split: option.splits prod.splits sum.splits)

text \<open>
  Claim C3. A unique violation is treated exactly like an accepted insert: in every state
  and environment \<^verbatim>\<open>pushOutbox\<close> does and returns what it does when each such reply is
  replaced by an accepted insert. In particular, with a session, no rejected call and one
  record in the Outbox whose insert is answered with a unique violation (code
  \<^verbatim>\<open>23505\<close>, or a message matching \<^verbatim>\<open>/duplicate key/i\<close>), the result is
  \<^verbatim>\<open>{ pushed: 1, failed: 0 }\<close>, the Outbox is left empty and the History entry of the
  record is marked.
\<close>

theorem duplicate_key_counts_as_pushed:
  "pushOutbox e w = pushOutbox (as_success e) w
   \<and> (session e PushSession = Some uid \<and> (\<forall>s. \<not> throws e s) \<and> outbox_of w = [item]
        \<and> (\<forall>row. insert_reply e 0 row = Some err) \<and> duplicate_key err \<longrightarrow>
      fst (pushOutbox e w) = Inr \<lparr>pushed = 1, failed = Some 0, push_reason = None\<rparr>
      \<and> outbox_of (snd (pushOutbox e w)) = []
      \<and> history_of (snd (pushOutbox e w)) =
           (case findIndex (\<lambda>h. localId h = localId item) (history_of w) of
              None \<Rightarrow> history_of w
            | Some idx \<Rightarrow> (history_of w)[idx := mark uid (history_of w ! idx)]))"
proof (intro conjI impI)
  show "pushOutbox e w = pushOutbox (as_success e) w"
    by (simp add: pushOutbox_as_success)
next
  assume a: "session e PushSession = Some uid \<and> (\<forall>s. \<not> throws e s) \<and> outbox_of w = [item]
        \<and> (\<forall>row. insert_reply e 0 row = Some err) \<and> duplicate_key err"
  then have c: "confirmed e uid 0 item" by (simp add: confirmed_def)
  from a have a1: "session e PushSession = Some uid" and a2: "\<forall>s. \<not> throws e s"
    and a3: "outbox_of w = [item]" by auto
  note push_single_confirmed[OF a1 a2 a3 c]
  then show "fst (pushOutbox e w) = Inr \<lparr>pushed = 1, failed = Some 0, push_reason = None\<rparr>"
    and "outbox_of (snd (pushOutbox e w)) = []"
    and "history_of (snd (pushOutbox e w)) =
           (case findIndex (\<lambda>h. localId h = localId item) (history_of w) of
              None \<Rightarrow> history_of w
            | Some idx \<Rightarrow> (history_of w)[idx := mark uid (history_of w ! idx)])"
    by auto
qed

text \<open>
  The theorem on the scenario of the specification: one record queued, the remote already
  holding its \<^verbatim>\<open>client_ref\<close>.
\<close>

theorem duplicate_key_counts_as_pushed_witness:
  "pushOutbox env_duplicate w_one_queued = pushOutbox (as_success env_duplicate) w_one_queued
   \<and> session env_duplicate PushSession = Some ''u1'' \<and> (\<forall>s. \<not> throws env_duplicate s)
   \<and> outbox_of w_one_queued = [scan_a]
   \<and> (\<forall>row. insert_reply env_duplicate 0 row = Some duplicate_error)
   \<and> duplicate_key duplicate_error
   \<and> fst (pushOutbox env_duplicate w_one_queued) = Inr \<lparr>pushed = 1, failed = Some 0, push_reason = None\<rparr>
   \<and> outbox_of (snd (pushOutbox env_duplicate w_one_queued)) = []
   \<and> history_of (snd (pushOutbox env_duplicate w_one_queued)) = [scan_b, mark ''u1'' scan_a]"
proof -
  have h: "session env_duplicate PushSession = Some ''u1''" "\<forall>s. \<not> throws env_duplicate s"
    "\<forall>row. insert_reply env_duplicate 0 row = Some duplicate_error"
    by (simp_all add: env_duplicate_def env_ok_def)
  have o: "outbox_of w_one_queued = [scan_a]"
    by (simp add: outbox_of_def w_one_queued_def K_OUTBOX_def K_LEGACY_CLEANED_def)
  have hi: "history_of w_one_queued = [scan_b, scan_a]"
    by (simp add: history_of_def w_one_queued_def K_HISTORY_def K_OUTBOX_def K_LEGACY_CLEANED_def)
  have f: "findIndex (\<lambda>h. localId h = localId scan_a) [scan_b, scan_a] = Some 1"
    by (simp add: scan_a_def scan_b_def)
  note t = duplicate_key_counts_as_pushed[of env_duplicate w_one_queued "''u1''" scan_a duplicate_error]
  from t have e: "pushOutbox env_duplicate w_one_queued = pushOutbox (as_success env_duplicate) w_one_queued"
    by blast
  from t h o duplicate_error_duplicate
  have r: "fst (pushOutbox env_duplicate w_one_queued) = Inr \<lparr>pushed = 1, failed = Some 0, push_reason = None\<rparr>"
    and q: "outbox_of (snd (pushOutbox env_duplicate w_one_queued)) = []"
    and m: "history_of (snd (pushOutbox env_duplicate w_one_queued)) =
           (case findIndex (\<lambda>h. localId h = localId scan_a) (history_of w_one_queued) of
              None \<Rightarrow> history_of w_one_queued
            | Some idx \<Rightarrow> (history_of w_one_queued)[idx := mark ''u1'' (history_of w_one_queued ! idx)])"
    by blast+
  have m': "history_of (snd (pushOutbox env_duplicate w_one_queued)) = [scan_b, mark ''u1'' scan_a]"
    unfolding m hi f by simp
  from e r q m' h o duplicate_error_duplicate show ?thesis by blast
qed

subsection \<open>No two History entries with the same \<open>serverId\<close>\<close>

lemma non_null_ids_append: "non_null_ids (xs @ ys) = non_null_ids xs @ non_null_ids ys"
  by (induction xs) (simp_all split: option.splits)

lemma non_null_ids_map:
  "map serverId h' = map serverId h \<Longrightarrow> non_null_ids h' = non_null_ids h"
proof (induction h arbitrary: h')
  case Nil
  then show ?case by simp
next
  case (Cons a h)
  then obtain b g where "h' = b # g" and "serverId b = serverId a" and "map serverId g = map serverId h"
    by (cases h') auto
  with Cons.IH[of g] show ?case by (simp split: option.splits)
qed

lemma non_null_ids_from_rows: "non_null_ids (map from_row rows) = map row_id rows"
  by (induction rows) (simp_all add: from_row_def)

lemma server_ids_covers: "s \<in> set (non_null_ids h) \<Longrightarrow> s \<noteq> [] \<Longrightarrow> s \<in> set (server_ids h)"
  by (induction h) (auto simp: server_ids_def split: option.splits)

lemma insort_desc_ids:
  "set (non_null_ids (insort_desc x xs)) = set (non_null_ids (x # xs))
   \<and> distinct (non_null_ids (insort_desc x xs)) = distinct (non_null_ids (x # xs))"
  by (induction xs) (auto split: option.splits)

lemma sort_history_ids:
  "set (non_null_ids (sort_history xs)) = set (non_null_ids xs)
   \<and> distinct (non_null_ids (sort_history xs)) = distinct (non_null_ids xs)"
proof (induction xs)
  case Nil
  then show ?case by (simp add: sort_history_def)
next
  case (Cons x xs)
  have "sort_history (x # xs) = insort_desc x (sort_history xs)"
    by (simp add: sort_history_def)
  with Cons insort_desc_ids[of x "sort_history xs"] show ?case
    by (auto split: option.splits)
qed

lemma merge_keeps_unique:
  assumes "unique_server_ids h" and "keyed_rows rows"
  shows "unique_server_ids (sort_history (fst (merge_rows (server_ids h) rows h n)))"
proof -
  let ?new = "filter (\<lambda>r. row_id r \<notin> set (server_ids h)) rows"
  have d: "distinct (map row_id ?new)"
    using assms(2) by (simp add: keyed_rows_def distinct_map_filter)
  have "set (map row_id ?new) \<inter> set (non_null_ids h) = {}"
  proof -
    have "s \<notin> set (non_null_ids h)" if "s \<in> set (map row_id ?new)" for s
    proof
      assume "s \<in> set (non_null_ids h)"
      moreover from that assms(2) have "s \<noteq> []" by (fastforce simp: keyed_rows_def)
      ultimately have "s \<in> set (server_ids h)" by (rule server_ids_covers)
      with that show False by auto
    qed
    then show ?thesis by blast
  qed
  with d assms(1) have "distinct (non_null_ids (h @ map from_row ?new))"
    by (auto simp: non_null_ids_append non_null_ids_from_rows unique_server_ids_def)
  then show ?thesis
    by (simp add: unique_server_ids_def merge_rows_eq sort_history_ids)
qed

lemma pullServer_unique:
  assumes "unique_server_ids (history_of w)" and "keyed_rows (rows_of (select_reply e (since_of w)))"
  shows "unique_server_ids (history_of (snd (pullServer e w)))"
  using pullServer_history[of e w] merge_keeps_unique[OF assms, of 0] assms(1) by auto

lemma pushOutbox_unique:
  "unique_server_ids (history_of (snd (pushOutbox e w))) = unique_server_ids (history_of w)"
  using non_null_ids_map[OF pushOutbox_serverId[of e w]] by (simp add: unique_server_ids_def)

lemma since_of_kept:
  "since_of (snd (purgeLegacyArtifactsOnce e w)) = since_of w"
  "since_of (snd (pushOutbox e w)) = since_of w"
proof -
  show "since_of (snd (purgeLegacyArtifactsOnce e w)) = since_of w"
    by (simp add: purge_eq since_of_def kv_logged K_LASTPULLED_AT_def K_LEGACY_CLEANED_def LEGACY_KEYS_def)
  show "since_of (snd (pushOutbox e w)) = since_of w"
    using pushOutbox_frame[of K_LASTPULLED_AT e w] keys_distinct by (simp add: since_of_def)
qed

lemma syncAll_unique:
  assumes "unique_server_ids (history_of w)" and "keyed_rows (rows_of (select_reply e (since_of w)))"
  shows "unique_server_ids (history_of (snd (syncAll e w)))"
proof -
  obtain r1 w1 where p: "purgeLegacyArtifactsOnce e w = (r1, w1)" by fastforce
  obtain r2 w2 where q: "pushOutbox e w1 = (r2, w2)" by fastforce
  have a: "unique_server_ids (history_of w1)"
    using purge_history[of e w] p assms(1) by simp
  have b: "unique_server_ids (history_of w2)"
    using pushOutbox_unique[of e w1] q a by simp
  have "since_of w2 = since_of w"
    using since_of_kept(1)[of e w] since_of_kept(2)[of e w1] p q by simp
  with assms(2) have "keyed_rows (rows_of (select_reply e (since_of w2)))" by simp
  then have c: "unique_server_ids (history_of (snd (pullServer e w2)))"
    by (rule pullServer_unique[OF b])
  show ?thesis
    using a b c p q by (simp add: snd_syncAll split: sum.splits)
qed

lemma apply_op_unique:
  assumes "unique_server_ids (history_of w)" and "keyed_at x w"
  shows "unique_server_ids (history_of (apply_op x w))"
proof (cases x)
  case (Purge e)
  then show ?thesis using assms(1) by (simp add: purge_history)
next
  case (Push e)
  then show ?thesis using assms(1) by (simp add: pushOutbox_unique)
next
  case (Pull e)
  then show ?thesis using assms pullServer_unique by simp
next
  case (Sync e)
  then show ?thesis using assms syncAll_unique by simp
qed

text \<open>
  Claim C4. History never holds two entries with the same \<open>serverId\<close>: on the replies that
  the table \<^verbatim>\<open>scans\<close> gives (rows keyed by their id), the invariant is preserved by
  every \<^verbatim>\<open>pushOutbox\<close> and every \<^verbatim>\<open>pullServer\<close>, as by the cleanup and
  \<^verbatim>\<open>syncAll\<close>, so by every sequence of them: from a History without two equal
  \<open>serverId\<close>s no such History is reached. This covers pulling the same window twice.
\<close>

theorem unique_server_ids_preserved:
  assumes "unique_server_ids (history_of w)" and "keyed_run ops w"
  shows "unique_server_ids (history_of (run ops w))"
  using assms
proof (induction ops arbitrary: w)
  case Nil
  then show ?case by (simp add: run_def)
next
  case (Cons x ops)
  from Cons.prems have k: "keyed_at x w" and r: "keyed_run ops (apply_op x w)" by auto
  have "unique_server_ids (history_of (apply_op x w))"
    by (rule apply_op_unique[OF Cons.prems(1) k])
  from Cons.IH[OF this r] show ?case by (simp add: run_def)
qed

lemma pull_window_twice:
  "fst (pullServer env_window w_queued) = Inr \<lparr>pulled = 2, pull_reason = None\<rparr>"
  "fst (pullServer env_window (snd (pullServer env_window w_queued))) = Inr \<lparr>pulled = 0, pull_reason = None\<rparr>"
  "map serverId (history_of (run [Pull env_window, Pull env_window] w_queued))
     = [Some ''8'', Some ''7'', None, None]"
  by (simp_all add: run_def pull_eval env_window_def env_ok_def w_queued_def from_row_def
        row7_def row8_def scan_a_def scan_b_def)

text \<open>
  The theorem on pulling the same window of two rows twice: the second pull adds nothing.
\<close>

theorem unique_server_ids_preserved_witness:
  "unique_server_ids (history_of w_queued)
   \<and> keyed_run [Pull env_window, Pull env_window] w_queued
   \<and> unique_server_ids (history_of (run [Pull env_window, Pull env_window] w_queued))
   \<and> fst (pullServer env_window w_queued) = Inr \<lparr>pulled = 2, pull_reason = None\<rparr>
   \<and> fst (pullServer env_window (snd (pullServer env_window w_queued))) = Inr \<lparr>pulled = 0, pull_reason = None\<rparr>
   \<and> map serverId (history_of (run [Pull env_window, Pull env_window] w_queued))
       = [Some ''8'', Some ''7'', None, None]"
proof -
  have h1: "unique_server_ids (history_of w_queued)"
    by (simp add: unique_server_ids_def history_of_def w_queued_def K_HISTORY_def K_OUTBOX_def
          K_LASTPULLED_AT_def K_LEGACY_CLEANED_def scan_a_def scan_b_def)
  have h2: "keyed_run [Pull env_window, Pull env_window] w_queued"
    by (simp add: keyed_rows_def rows_of_def env_window_def env_ok_def row7_def row8_def)
  from unique_server_ids_preserved[OF h1 h2] h1 h2 pull_window_twice show ?thesis by blast
qed

subsection \<open>The pull watermark along a sequence of pulls\<close>

lemma pull_watermark_cases:
  assumes "plain_watermark w"
  shows "plain_watermark (snd (pullServer e w))"
    and "watermark (snd (pullServer e w)) = watermark w \<or> watermark (snd (pullServer e w)) = now e"
  using pull_watermark_step[of e w] assms
  by (auto simp: plain_watermark_def watermark_def since_of_def)

lemma pull_trace_head: "\<exists>ws. pull_trace es w = w # ws"
  by (cases es) auto

lemma pull_trace_sorted:
  "plain_watermark w \<Longrightarrow> sorted (watermark w # map now es) \<Longrightarrow> sorted (map watermark (pull_trace es w))"
proof (induction es arbitrary: w)
  case Nil
  then show ?case by simp
next
  case (Cons e es)
  let ?w' = "snd (pullServer e w)"
  from Cons.prems(2) have le: "watermark w \<le> now e" and rest: "sorted (now e # map now es)"
    and all: "\<forall>t\<in>set (map now es). watermark w \<le> t"
    by auto
  note c = pull_watermark_cases[OF Cons.prems(1), of e]
  have s': "sorted (watermark ?w' # map now es)"
    using c(2) rest all Cons.prems(2) by auto
  have ih: "sorted (map watermark (pull_trace es ?w'))"
    by (rule Cons.IH[OF c(1) s'])
  obtain ws where ws: "pull_trace es ?w' = ?w' # ws"
    using pull_trace_head by blast
  have "watermark w \<le> watermark ?w'"
    using c(2) le by auto
  with ih ws show ?case by auto
qed

lemma pull_completes:
  assumes "session e PullSession \<noteq> None" and "\<forall>s. \<not> throws e s"
    and "s_error (select_reply e (since_of w)) = None"
  shows "\<exists>n. fst (pullServer e w) = Inr \<lparr>pulled = n, pull_reason = None\<rparr>"
  using assms by (simp add: pullServer_eq Let_def split: prod.splits)

lemma pull_completed_stores_now:
  assumes "fst (pullServer e w) = Inr \<lparr>pulled = n, pull_reason = None\<rparr>"
  shows "kv (snd (pullServer e w)) K_LASTPULLED_AT = Some (Str (now e))"
  using assms by (simp add: pullServer_eq Let_def split: prod.splits if_splits)

text \<open>
  Claim C5, as amended. A call of \<^verbatim>\<open>pullServer\<close> that does not complete (no session, an
  error reply, a rejected call) leaves the stored watermark as it is. A call that completes
  (as every call with a session, no rejected call and no error reply does) stores the
  reading of the wall clock. So over any sequence of calls the watermark never decreases,
  provided the readings of the clock do not decrease and none is earlier than the watermark
  stored at the start.
\<close>

theorem watermark_monotone_with_clock:
  assumes "plain_watermark w" and "sorted (watermark w # map now es)"
  shows "sorted (map watermark (pull_trace es w))
       \<and> (\<forall>e' w'. (\<forall>n. fst (pullServer e' w') \<noteq> Inr \<lparr>pulled = n, pull_reason = None\<rparr>) \<longrightarrow>
                 kv (snd (pullServer e' w')) K_LASTPULLED_AT = kv w' K_LASTPULLED_AT)
       \<and> (\<forall>e' w' n. fst (pullServer e' w') = Inr \<lparr>pulled = n, pull_reason = None\<rparr> \<longrightarrow>
                 kv (snd (pullServer e' w')) K_LASTPULLED_AT = Some (Str (now e'))
               \<and> watermark (snd (pullServer e' w')) = now e')
       \<and> (\<forall>e' w'. session e' PullSession \<noteq> None \<and> (\<forall>s. \<not> throws e' s)
                 \<and> s_error (select_reply e' (since_of w')) = None \<longrightarrow>
                 (\<exists>n. fst (pullServer e' w') = Inr \<lparr>pulled = n, pull_reason = None\<rparr>))"
proof (intro conjI allI impI)
  show "sorted (map watermark (pull_trace es w))"
    by (rule pull_trace_sorted[OF assms])
next
  fix e' w'
  assume "\<forall>n. fst (pullServer e' w') \<noteq> Inr \<lparr>pulled = n, pull_reason = None\<rparr>"
  with pull_watermark_step[of e' w']
  show "kv (snd (pullServer e' w')) K_LASTPULLED_AT = kv w' K_LASTPULLED_AT" by blast
next
  fix e' w' n
  assume c: "fst (pullServer e' w') = Inr \<lparr>pulled = n, pull_reason = None\<rparr>"
  show k: "kv (snd (pullServer e' w')) K_LASTPULLED_AT = Some (Str (now e'))"
    by (rule pull_completed_stores_now[OF c])
  show "watermark (snd (pullServer e' w')) = now e'"
    by (simp add: watermark_def since_of_def k)
next
  fix e' :: env and w' :: world
  assume "session e' PullSession \<noteq> None \<and> (\<forall>s. \<not> throws e' s)
            \<and> s_error (select_reply e' (since_of w')) = None"
  then show "\<exists>n. fst (pullServer e' w') = Inr \<lparr>pulled = n, pull_reason = None\<rparr>"
    using pull_completes by blast
qed

text \<open>
  The theorem on three calls: a pull that completes, one that gets an error reply, and a
  later one that completes.
\<close>

theorem watermark_monotone_with_clock_witness:
  "plain_watermark w_queued
   \<and> sorted (watermark w_queued # map now [env_ok, env_pull_error, env_later])
   \<and> sorted (map watermark (pull_trace [env_ok, env_pull_error, env_later] w_queued))
   \<and> map watermark (pull_trace [env_ok, env_pull_error, env_later] w_queued)
       = [''2025-01-01T00:00:00.000Z'', ''2025-01-02T00:00:00.000Z'', ''2025-01-02T00:00:00.000Z'',
          ''2025-01-03T00:00:00.000Z'']
   \<and> fst (pullServer env_pull_error w_queued) = Inr \<lparr>pulled = 0, pull_reason = Some ''pull-error''\<rparr>
   \<and> kv (snd (pullServer env_pull_error w_queued)) K_LASTPULLED_AT = kv w_queued K_LASTPULLED_AT
   \<and> session env_ok PullSession \<noteq> None \<and> (\<forall>s. \<not> throws env_ok s)
   \<and> s_error (select_reply env_ok (since_of w_queued)) = None
   \<and> fst (pullServer env_ok w_queued) = Inr \<lparr>pulled = 0, pull_reason = None\<rparr>
   \<and> kv (snd (pullServer env_ok w_queued)) K_LASTPULLED_AT = Some (Str (now env_ok))
   \<and> watermark (snd (pullServer env_ok w_queued)) = now env_ok"
proof -
  have h1: "plain_watermark w_queued"
    by (simp add: plain_watermark_def w_queued_def K_LASTPULLED_AT_def K_LEGACY_CLEANED_def)
  have h2: "sorted (watermark w_queued # map now [env_ok, env_pull_error, env_later])"
    by (simp add: watermark_def since_of_def w_queued_def env_ok_def env_pull_error_def env_later_def
          K_LASTPULLED_AT_def K_LEGACY_CLEANED_def)
  have v: "map watermark (pull_trace [env_ok, env_pull_error, env_later] w_queued)
       = [''2025-01-01T00:00:00.000Z'', ''2025-01-02T00:00:00.000Z'', ''2025-01-02T00:00:00.000Z'',
          ''2025-01-03T00:00:00.000Z'']"
    by (simp add: watermark_def pull_eval w_queued_def env_ok_def env_pull_error_def env_later_def
          scan_a_def scan_b_def)
  have f: "fst (pullServer env_pull_error w_queued) = Inr \<lparr>pulled = 0, pull_reason = Some ''pull-error''\<rparr>"
    by (simp add: pull_eval w_queued_def env_ok_def env_pull_error_def)
  have g: "session env_ok PullSession \<noteq> None" "\<forall>s. \<not> throws env_ok s"
    "s_error (select_reply env_ok (since_of w_queued)) = None"
    by (simp_all add: env_ok_def)
  have c: "fst (pullServer env_ok w_queued) = Inr \<lparr>pulled = 0, pull_reason = None\<rparr>"
    by (simp add: pull_eval w_queued_def env_ok_def scan_a_def scan_b_def)
  note t = watermark_monotone_with_clock[OF h1 h2]
  from t have s: "sorted (map watermark (pull_trace [env_ok, env_pull_error, env_later] w_queued))"
    by blast
  from t f have u: "kv (snd (pullServer env_pull_error w_queued)) K_LASTPULLED_AT = kv w_queued K_LASTPULLED_AT"
    by simp
  from t c have n: "kv (snd (pullServer env_ok w_queued)) K_LASTPULLED_AT = Some (Str (now env_ok))"
    "watermark (snd (pullServer env_ok w_queued)) = now env_ok"
    by blast+
  from h1 h2 s v f u g c n show ?thesis by blast
qed

text \<open>
  Claim C5 as stated fails when the clock has been set back: the stored watermark is
  2025-01-01, the clock reads 2024-12-31, the pull completes and stores the earlier time.
\<close>

theorem watermark_decreases_when_clock_set_back:
  "fst (pullServer env_clock_back w_queued) = Inr \<lparr>pulled = 0, pull_reason = None\<rparr>
   \<and> watermark w_queued = ''2025-01-01T00:00:00.000Z''
   \<and> watermark (snd (pullServer env_clock_back w_queued)) = ''2024-12-31T23:59:59.000Z''
   \<and> watermark (snd (pullServer env_clock_back w_queued)) < watermark w_queued"
  by (simp add: watermark_def pull_eval w_queued_def env_ok_def env_clock_back_def scan_a_def scan_b_def)

subsection \<open>A pull that gets an error reply\<close>

text \<open>
  Claim C6. When the select on \<^verbatim>\<open>scans\<close> answers with an error, \<^verbatim>\<open>pullServer\<close>
  returns \<^verbatim>\<open>{ pulled: 0, reason: 'pull-error' }\<close> and the storage (so the watermark and
  History) is what it was: the three calls made are the session, the read of the watermark
  and the query.
\<close>

theorem pull_error_atomic:
  assumes "session e PullSession = Some uid"
    and "\<not> throws e PullSession" "\<not> throws e PullReadSince" "\<not> throws e PullQuery"
    and "s_error (select_reply e (since_of w)) = Some err"
  shows "fst (pullServer e w) = Inr \<lparr>pulled = 0, pull_reason = Some ''pull-error''\<rparr>
       \<and> kv (snd (pullServer e w)) = kv w
       \<and> calls (snd (pullServer e w)) = calls w @ [PullSession, PullReadSince, PullQuery]"
  using assms by (simp add: pullServer_eq kv_logged calls_logged)

text \<open>
  The theorem at a store with two History entries and a watermark, the query answering a
  network error.
\<close>

theorem pull_error_atomic_witness:
  "session env_pull_error PullSession = Some ''u1''
   \<and> \<not> throws env_pull_error PullSession \<and> \<not> throws env_pull_error PullReadSince
   \<and> \<not> throws env_pull_error PullQuery
   \<and> s_error (select_reply env_pull_error (since_of w_queued)) = Some network_error
   \<and> fst (pullServer env_pull_error w_queued) = Inr \<lparr>pulled = 0, pull_reason = Some ''pull-error''\<rparr>
   \<and> kv (snd (pullServer env_pull_error w_queued)) = kv w_queued
   \<and> calls (snd (pullServer env_pull_error w_queued)) = calls w_queued @ [PullSession, PullReadSince, PullQuery]"
proof -
  have h: "session env_pull_error PullSession = Some ''u1''"
    "\<not> throws env_pull_error PullSession" "\<not> throws env_pull_error PullReadSince"
    "\<not> throws env_pull_error PullQuery"
    "s_error (select_reply env_pull_error (since_of w_queued)) = Some network_error"
    by (simp_all add: env_pull_error_def env_ok_def)
  from pull_error_atomic[OF h] h show ?thesis by simp
qed

subsection \<open>Pull after push\<close>

text \<open>
  Claim C7, as amended. After a cleanup that returns: whenever \<^verbatim>\<open>pushOutbox\<close> returns
  a result (whatever its counters or reason), \<^verbatim>\<open>pullServer\<close> is attempted on the
  state that the push left (the log goes on with the session lookup of the pull), and its
  result is reported beside the push result; when
  \<^verbatim>\<open>pushOutbox\<close> throws, \<^verbatim>\<open>syncAll\<close> answers the error result in the state
  where the push stopped, with no pull.
\<close>

theorem pull_follows_returned_push:
  assumes "purgeLegacyArtifactsOnce e w = (Inr (), w1)"
  shows "(\<forall>p w2. pushOutbox e w1 = (Inr p, w2) \<longrightarrow>
            snd (syncAll e w) = snd (pullServer e w2)
          \<and> (\<exists>ss. calls (snd (syncAll e w)) = calls w2 @ PullSession # ss)
          \<and> (\<forall>q. fst (pullServer e w2) = Inr q \<longrightarrow>
                 fst (syncAll e w) = Inr \<lparr>push = p, pull = q, error = False\<rparr>))
       \<and> (\<forall>x w2. pushOutbox e w1 = (Inl x, w2) \<longrightarrow> syncAll e w = (Inr error_result, w2))"
proof (intro conjI allI impI)
  fix p w2 assume p: "pushOutbox e w1 = (Inr p, w2)"
  show s: "snd (syncAll e w) = snd (pullServer e w2)"
    using assms p by (simp add: snd_syncAll)
  show "\<exists>ss. calls (snd (syncAll e w)) = calls w2 @ PullSession # ss"
    unfolding s by (rule pullServer_attempted)
  fix q assume "fst (pullServer e w2) = Inr q"
  then show "fst (syncAll e w) = Inr \<lparr>push = p, pull = q, error = False\<rparr>"
    using assms p by (auto simp: syncAll_eq split: prod.splits sum.splits)
next
  fix x w2 assume "pushOutbox e w1 = (Inl x, w2)"
  then show "syncAll e w = (Inr error_result, w2)"
    using assms by (simp add: syncAll_eq)
qed

text \<open>
  The theorem on a push that returns with one record left as a failure: the pull runs and
  both results are reported.
\<close>

theorem pull_follows_returned_push_witness:
  "purgeLegacyArtifactsOnce env_second_fails w_queued = (Inr (), logged [PurgeGetFlag] w_queued)
   \<and> fst (pushOutbox env_second_fails (logged [PurgeGetFlag] w_queued))
       = Inr \<lparr>pushed = 1, failed = Some 1, push_reason = None\<rparr>
   \<and> (\<exists>ss. calls (snd (syncAll env_second_fails w_queued))
            = calls (snd (pushOutbox env_second_fails (logged [PurgeGetFlag] w_queued))) @ PullSession # ss)
   \<and> fst (syncAll env_second_fails w_queued)
       = Inr \<lparr>push = \<lparr>pushed = 1, failed = Some 1, push_reason = None\<rparr>,
              pull = \<lparr>pulled = 0, pull_reason = None\<rparr>, error = False\<rparr>"
proof -
  let ?w1 = "logged [PurgeGetFlag] w_queued"
  have h: "purgeLegacyArtifactsOnce env_second_fails w_queued = (Inr (), ?w1)"
    by (simp add: purge_eq env_second_fails_def env_ok_def w_queued_def K_LEGACY_CLEANED_def)
  have p: "fst (pushOutbox env_second_fails ?w1) = Inr \<lparr>pushed = 1, failed = Some 1, push_reason = None\<rparr>"
    by (simp add: push_eval env_second_fails_def env_ok_def w_queued_def
          network_error_retryable scan_a_def scan_b_def)
  then have p': "pushOutbox env_second_fails ?w1 =
      (Inr \<lparr>pushed = 1, failed = Some 1, push_reason = None\<rparr>, snd (pushOutbox env_second_fails ?w1))"
    by (metis prod.collapse)
  have q: "fst (pullServer env_second_fails (snd (pushOutbox env_second_fails ?w1)))
      = Inr \<lparr>pulled = 0, pull_reason = None\<rparr>"
    by (simp add: pullServer_eq since_of_def history_of_def rows_of_def server_ids_def sort_history_def
          compareFn_def push_eval env_second_fails_def env_ok_def w_queued_def
          network_error_retryable scan_a_def scan_b_def)
  from pull_follows_returned_push[OF h] p' q
  have "\<exists>ss. calls (snd (syncAll env_second_fails w_queued))
            = calls (snd (pushOutbox env_second_fails ?w1)) @ PullSession # ss"
    and "fst (syncAll env_second_fails w_queued)
       = Inr \<lparr>push = \<lparr>pushed = 1, failed = Some 1, push_reason = None\<rparr>,
              pull = \<lparr>pulled = 0, pull_reason = None\<rparr>, error = False\<rparr>"
    by blast+
  with h p show ?thesis by blast
qed

text \<open>
  Claim C7 as stated fails when the push throws: with two records queued and the final
  write of the Outbox rejecting, \<^verbatim>\<open>syncAll\<close> answers the error result and never
  asks for the session of the pull.
\<close>

theorem pull_skipped_when_push_throws:
  "fst (pushOutbox env_push_rejects w_queued) = Inl (Rejected PushWriteOutbox)
   \<and> fst (syncAll env_push_rejects w_queued) = Inr error_result
   \<and> calls (snd (syncAll env_push_rejects w_queued))
       = [PurgeGetFlag, PushSession, PushReadOutbox,
          PushInsert 0, PushReadHistory 0, PushWriteHistory 0,
          PushTenant 1, PushInsert 1, PushReadHistory 1, PushWriteHistory 1, PushWriteOutbox]
   \<and> PullSession \<notin> set (calls (snd (syncAll env_push_rejects w_queued)))"
  by (simp add: syncAll_eq purge_eq push_eval env_push_rejects_def env_ok_def w_queued_def
        scan_a_def scan_b_def)

subsection \<open>The cleanup runs once\<close>

text \<open>
  Claim C8. The cleanup is exactly-once: after one call that returns, whatever sequence of
  operations of the module follows, the flag is set, and any further call only reads the
  flag: it attempts no deletion, leaves the whole storage as it is, and returns when the read
  does not reject.
\<close>

theorem migrator_exactly_once:
  assumes "fst (purgeLegacyArtifactsOnce e w) = Inr ()"
    and "w' = run ops (snd (purgeLegacyArtifactsOnce e w))"
  shows "truthy (kv w' K_LEGACY_CLEANED)
       \<and> calls (snd (purgeLegacyArtifactsOnce e' w')) = calls w' @ [PurgeGetFlag]
       \<and> kv (snd (purgeLegacyArtifactsOnce e' w')) = kv w'
       \<and> (\<not> throws e' PurgeGetFlag \<longrightarrow> fst (purgeLegacyArtifactsOnce e' w') = Inr ())"
proof -
  have t: "truthy (kv w' K_LEGACY_CLEANED)"
    using run_flag[OF purge_sets_flag[OF assms(1)], of ops] purge_sets_flag[OF assms(1)] assms(2)
    by simp
  then show ?thesis
    by (simp add: purge_eq kv_logged calls_logged)
qed

text \<open>
  The theorem at a store that still holds two legacy keys: the first call deletes them, a
  push and a pull follow, and the next call is a read of the flag.
\<close>

theorem migrator_exactly_once_witness:
  "fst (purgeLegacyArtifactsOnce env_ok w_fresh) = Inr ()
   \<and> kv (snd (purgeLegacyArtifactsOnce env_ok w_fresh)) ''SYNC_LOCK'' = None
   \<and> \<not> throws env_ok PurgeGetFlag
   \<and> truthy (kv (run [Push env_ok, Pull env_ok] (snd (purgeLegacyArtifactsOnce env_ok w_fresh))) K_LEGACY_CLEANED)
   \<and> calls (snd (purgeLegacyArtifactsOnce env_ok
        (run [Push env_ok, Pull env_ok] (snd (purgeLegacyArtifactsOnce env_ok w_fresh)))))
      = calls (run [Push env_ok, Pull env_ok] (snd (purgeLegacyArtifactsOnce env_ok w_fresh))) @ [PurgeGetFlag]
   \<and> kv (snd (purgeLegacyArtifactsOnce env_ok
        (run [Push env_ok, Pull env_ok] (snd (purgeLegacyArtifactsOnce env_ok w_fresh)))))
      = kv (run [Push env_ok, Pull env_ok] (snd (purgeLegacyArtifactsOnce env_ok w_fresh)))
   \<and> fst (purgeLegacyArtifactsOnce env_ok
        (run [Push env_ok, Pull env_ok] (snd (purgeLegacyArtifactsOnce env_ok w_fresh)))) = Inr ()"
proof -
  have h: "fst (purgeLegacyArtifactsOnce env_ok w_fresh) = Inr ()"
    by (simp add: purge_eq env_ok_def w_fresh_def K_LEGACY_CLEANED_def)
  have d: "kv (snd (purgeLegacyArtifactsOnce env_ok w_fresh)) ''SYNC_LOCK'' = None"
    by (simp add: purge_eq env_ok_def w_fresh_def K_LEGACY_CLEANED_def LEGACY_KEYS_def kv_logged)
  have n: "\<not> throws env_ok PurgeGetFlag" by (simp add: env_ok_def)
  from migrator_exactly_once[OF h refl, of "[Push env_ok, Pull env_ok]" env_ok] h d n
  show ?thesis by simp
qed

subsection \<open>The counters of a push\<close>

text \<open>
  Claim C9. With a session, whatever the remote answers and whichever calls inside the loop
  reject, a result of \<^verbatim>\<open>pushOutbox\<close> counts every record of the Outbox once:
  \<open>pushed\<close> plus \<open>failed\<close> is the length of the Outbox read at the start (\<open>failed\<close>
  is present whenever the Outbox was not empty, and the result of an empty Outbox is
  \<^verbatim>\<open>{ pushed: 0 }\<close>). The call returns such a result when the session lookup, the read
  and the final write of the Outbox do not reject.
\<close>

theorem push_counters_conserved:
  assumes "session e PushSession = Some uid"
  shows "(\<forall>r. fst (pushOutbox e w) = Inr r \<longrightarrow>
            pushed r + (case failed r of None \<Rightarrow> 0 | Some n \<Rightarrow> n) = length (outbox_of w)
          \<and> (outbox_of w \<noteq> [] \<longrightarrow> failed r \<noteq> None))
       \<and> (\<not> throws e PushSession \<and> \<not> throws e PushReadOutbox \<and> \<not> throws e PushWriteOutbox \<longrightarrow>
            (\<exists>r. fst (pushOutbox e w) = Inr r))"
  using pushOutbox_counts[OF assms] pushOutbox_returns[OF assms] by blast

text \<open>
  The theorem on an Outbox of two records, the second insert answered with a network error.
\<close>

theorem push_counters_conserved_witness:
  "session env_second_fails PushSession = Some ''u1''
   \<and> fst (pushOutbox env_second_fails w_queued) = Inr \<lparr>pushed = 1, failed = Some 1, push_reason = None\<rparr>
   \<and> pushed \<lparr>pushed = 1, failed = Some 1, push_reason = None\<rparr>
       + (case failed \<lparr>pushed = 1, failed = Some 1, push_reason = None\<rparr> of None \<Rightarrow> 0 | Some n \<Rightarrow> n)
       = length (outbox_of w_queued)
   \<and> outbox_of w_queued \<noteq> []
   \<and> failed \<lparr>pushed = 1, failed = Some 1, push_reason = None\<rparr> \<noteq> None
   \<and> \<not> throws env_second_fails PushSession \<and> \<not> throws env_second_fails PushReadOutbox
   \<and> \<not> throws env_second_fails PushWriteOutbox
   \<and> (\<exists>r. fst (pushOutbox env_second_fails w_queued) = Inr r)"
proof -
  have h: "session env_second_fails PushSession = Some ''u1''"
    by (simp add: env_second_fails_def env_ok_def)
  have n: "\<not> throws env_second_fails PushSession" "\<not> throws env_second_fails PushReadOutbox"
    "\<not> throws env_second_fails PushWriteOutbox"
    by (simp_all add: env_second_fails_def env_ok_def)
  have o: "outbox_of w_queued \<noteq> []"
    by (simp add: outbox_of_def w_queued_def K_OUTBOX_def K_LASTPULLED_AT_def K_LEGACY_CLEANED_def)
  from push_counters_conserved[OF h, of w_queued] push_second_fails(1) h n o
  show ?thesis by simp
qed

subsection \<open>What a push changes in History\<close>



end
